theory Spec2Isabelle
  imports Main "HOL-Library.Word"
begin

section \<open>Data model\<close>

text \<open>
  The program is \<^verbatim>\<open>Source/Main.cpp\<close>. Its integers are modelled under the LP64 data
  model: \<^verbatim>\<open>unsigned\<close> is a \<open>32 word\<close>, \<^verbatim>\<open>unsigned long\<close> and \<^verbatim>\<open>uint64_t\<close> are
  \<open>64 word\<close>. A GMP integer (\<^verbatim>\<open>mpz_t\<close>) holds an unbounded \<open>int\<close>.

  \<^verbatim>\<open>mpz_t\<close> is an array type (one \<^verbatim>\<open>__mpz_struct\<close>), so an \<^verbatim>\<open>mpz_t\<close> argument is passed as
  the address of the caller's object. The model therefore keeps the GMP integers in a
  store indexed by address. An address without a value is an object that is not
  initialised or has been cleared; reading it is undefined behaviour.
\<close>

datatype addr =
    Batch_start_number
  | Batch_end_number
  | Thread_start_number
  | Number nat \<comment> \<open>the local \<^verbatim>\<open>number\<close> of the verifier running on worker \<open>k\<close>\<close>

type_synonym store = "addr \<Rightarrow> int option"

datatype 'a result = Returns 'a | Undefined_behaviour

subsection \<open>GMP arithmetic on values\<close>

text \<open>The GMP functions the program calls, on the values of their operands.\<close>

definition mpz_cmp_ui :: "int \<Rightarrow> 64 word \<Rightarrow> int" where
  "mpz_cmp_ui op1 op2 = (if op1 < uint op2 then - 1 else if op1 = uint op2 then 0 else 1)"

definition mpz_even_p :: "int \<Rightarrow> bool" where
  "mpz_even_p op = even op"

definition mpz_divexact_ui :: "int \<Rightarrow> 64 word \<Rightarrow> int" where
  "mpz_divexact_ui n d = n div uint d"

definition mpz_mul_ui :: "int \<Rightarrow> 64 word \<Rightarrow> int" where
  "mpz_mul_ui op1 op2 = op1 * uint op2"

definition mpz_add_ui :: "int \<Rightarrow> 64 word \<Rightarrow> int" where
  "mpz_add_ui op1 op2 = op1 + uint op2"

section \<open>The sequence verifier\<close>

text \<open>
  The loop of \<^verbatim>\<open>collatz_conjecture\<close> (lines 23 to 37) on the local \<^verbatim>\<open>number\<close>. The loop
  has no bound, so it is a partial function: \<open>None\<close> is a run that never leaves the
  loop. The second argument counts the loop bodies executed so far; the source does
  not keep this count, it is carried for the statements about the number of steps.
\<close>

partial_function (option)
  collatz_loop :: "addr \<Rightarrow> nat \<Rightarrow> store \<Rightarrow> (store \<times> nat) result option"
where
  "collatz_loop number steps h =
     (case h number of
        None \<Rightarrow> Some Undefined_behaviour
      | Some n \<Rightarrow>
          if mpz_cmp_ui n 1 = 0 then Some (Returns (h, steps))
          else if mpz_even_p n
            then collatz_loop number (Suc steps) (h(number \<mapsto> mpz_divexact_ui n 2))
            else collatz_loop number (Suc steps)
                   (h(number \<mapsto> mpz_add_ui (mpz_mul_ui n 3) 1)))"

text \<open>
  \<^verbatim>\<open>collatz_conjecture(mpz_t start_number)\<close>: \<^verbatim>\<open>mpz_init_set(number, start_number)\<close>,
  the loop, \<^verbatim>\<open>mpz_clear(number)\<close>. \<open>number\<close> is the address of the local of this
  activation. The result is the store after the call and the number of steps.
\<close>

definition collatz_conjecture ::
  "addr \<Rightarrow> addr \<Rightarrow> store \<Rightarrow> (store \<times> nat) result option"
where
  "collatz_conjecture number start_number h =
     (case h start_number of
        None \<Rightarrow> Some Undefined_behaviour
      | Some v \<Rightarrow>
          (case collatz_loop number 0 (h(number \<mapsto> v)) of
             None \<Rightarrow> None
           | Some Undefined_behaviour \<Rightarrow> Some Undefined_behaviour
           | Some (Returns (h', steps)) \<Rightarrow> Some (Returns (h'(number := None), steps))))"

text \<open>
  The Collatz step in the words of the specification: \<open>n/2\<close> if \<open>n\<close> is even, else
  \<open>3n+1\<close>. The verifier is compared with iterating this function.
\<close>

definition spec_collatz_step :: "int \<Rightarrow> int" where
  "spec_collatz_step n = (if even n then n div 2 else 3 * n + 1)"

text \<open>\<open>first_reaches_one n j\<close>: the orbit of \<open>n\<close> is at 1 after \<open>j\<close> steps and not before.\<close>

definition first_reaches_one :: "int \<Rightarrow> nat \<Rightarrow> bool" where
  "first_reaches_one n j \<longleftrightarrow>
     (spec_collatz_step ^^ j) n = 1 \<and> (\<forall>i<j. (spec_collatz_step ^^ i) n \<noteq> 1)"

section \<open>The input routines\<close>

text \<open>
  Standard input is a list of lines. \<^verbatim>\<open>std::getline\<close> takes the next line; once the
  input is exhausted it fails and leaves the string without a valid value, so the
  routine reprompts forever: that is the result \<open>None\<close>. The prompts and the
  message \<^verbatim>\<open>Invalid input.\<close> are output only and are left out.

  \<^verbatim>\<open>strtoull\<close> (base 10) and \<^verbatim>\<open>mpz_init_set_str\<close> (base 10) are library functions,
  modelled from the C standard and the GMP manual. Both read the C string, which
  ends at the first NUL character of the line.
\<close>

definition ULLONG_MAX :: "64 word" where
  "ULLONG_MAX = 18446744073709551615"

definition c_str :: "string \<Rightarrow> string" where
  "c_str s = takeWhile (\<lambda>c. c \<noteq> CHR 0x00) s"

definition isspace :: "char \<Rightarrow> bool" where
  "isspace c \<longleftrightarrow> c \<in> set [CHR '' '', CHR 0x09, CHR 0x0A, CHR 0x0B, CHR 0x0C, CHR 0x0D]"

definition isdigit :: "char \<Rightarrow> bool" where
  "isdigit c \<longleftrightarrow> c \<in> set ''0123456789''"

definition digit_value :: "char \<Rightarrow> nat" where
  "digit_value c = of_char c - of_char CHR ''0''"

definition decimal_value :: "string \<Rightarrow> nat" where
  "decimal_value ds = foldl (\<lambda>acc c. 10 * acc + digit_value c) 0 ds"

text \<open>
  \<^verbatim>\<open>strtoull(nptr, nullptr, 10)\<close>: white space, an optional sign, the longest run of
  digits. A value out of range gives \<^verbatim>\<open>ULLONG_MAX\<close>; a minus sign negates the value
  in the unsigned type; no digits give 0.
\<close>

definition strtoull :: "string \<Rightarrow> 64 word" where
  "strtoull nptr =
     (let s = dropWhile isspace nptr;
          negative = (case s of [] \<Rightarrow> False | c # _ \<Rightarrow> c = CHR ''-'');
          s' = (case s of [] \<Rightarrow> [] | c # cs \<Rightarrow> if c = CHR ''-'' \<or> c = CHR ''+'' then cs else s);
          v = decimal_value (takeWhile isdigit s')
      in if v > 18446744073709551615 then ULLONG_MAX
         else if negative then - word_of_nat v
         else word_of_nat v)"

text \<open>
  \<^verbatim>\<open>input.find_first_not_of("0123456789") == std::string::npos\<close>, on the whole line.
\<close>

definition is_numeric :: "string \<Rightarrow> bool" where
  "is_numeric input = list_all isdigit input"

text \<open>\<^verbatim>\<open>get_int64\<close> (lines 55 to 72): the value returned and the lines left to read.\<close>

fun get_int64 :: "string list \<Rightarrow> (64 word \<times> string list) option" where
  "get_int64 [] = None"
| "get_int64 (input # rest) =
     (let result = strtoull (c_str input)
      in if is_numeric input \<and> result \<noteq> ULLONG_MAX \<and> result > 0
         then Some (result, rest)
         else get_int64 rest)"



record config =
  thread_count :: "64 word"
  iterations_per_thread :: "64 word"


section \<open>The worker procedure and the batch scheduler\<close>

text \<open>Line 106: the product is computed in \<^verbatim>\<open>uint64_t\<close>.\<close>

definition batch_size :: "config \<Rightarrow> 64 word" where
  "batch_size cfg = thread_count cfg * iterations_per_thread cfg"

text \<open>
  The scheduler and the workers run concurrently. Each thread is a small state
  machine whose steps are the calls it makes on the store; a schedule chooses
  which thread takes the next step, and a thread that cannot move (a worker not
  yet launched or finished, the scheduler waiting at the join) leaves the state as
  it is. Every GMP call is taken as one indivisible step, which is the reading most
  favourable to the program: the calls of different threads on one integer are not
  synchronised in the source. One call of the verifier is one step: after
  \<^verbatim>\<open>mpz_init_set\<close> it works on its local only.

  A worker thread holds the arguments it was started with (line 128): the address
  of the scheduler's \<^verbatim>\<open>thread_start_number\<close> and the iteration count. Its counter \<^verbatim>\<open>i\<close>
  is an \<^verbatim>\<open>unsigned\<close>. \<open>verified\<close> lists the values on which the verifier has
  returned, in order; the source keeps no such list.
\<close>

datatype worker_pc = Loop_test | Call_verifier | Increment | Finished

record thread =
  arg_start_number :: addr
  arg_iterations :: "64 word"
  var_i :: "32 word"
  at :: worker_pc
  verified :: "int list"

definition new_thread :: "addr \<Rightarrow> 64 word \<Rightarrow> thread" where
  "new_thread p n =
     \<lparr>arg_start_number = p, arg_iterations = n, var_i = 0, at = Loop_test, verified = []\<rparr>"

text \<open>
  One step of \<^verbatim>\<open>thread_procedure\<close> (lines 44 to 51) on worker \<open>k\<close>: the test
  \<^verbatim>\<open>i < iterations_per_thread\<close>, the call of the verifier, or
  \<^verbatim>\<open>mpz_add_ui(thread_start_number, thread_start_number, 1)\<close> followed by \<^verbatim>\<open>++i\<close>. A worker
  whose verifier does not return stays where it is.
\<close>

definition thread_procedure_step :: "nat \<Rightarrow> thread \<times> store \<Rightarrow> (thread \<times> store) result" where
  "thread_procedure_step k = (\<lambda>(t, h).
     case at t of
       Loop_test \<Rightarrow>
         Returns (t\<lparr>at := if ucast (var_i t) < arg_iterations t then Call_verifier else Finished\<rparr>, h)
     | Call_verifier \<Rightarrow>
         (case h (arg_start_number t) of
            None \<Rightarrow> Undefined_behaviour
          | Some v \<Rightarrow>
              (case collatz_conjecture (Number k) (arg_start_number t) h of
                 None \<Rightarrow> Returns (t, h)
               | Some Undefined_behaviour \<Rightarrow> Undefined_behaviour
               | Some (Returns (h', steps)) \<Rightarrow>
                   Returns (t\<lparr>at := Increment, verified := verified t @ [v]\<rparr>, h')))
     | Increment \<Rightarrow>
         (case h (arg_start_number t) of
            None \<Rightarrow> Undefined_behaviour
          | Some v \<Rightarrow>
              Returns (t\<lparr>var_i := var_i t + 1, at := Loop_test\<rparr>,
                       h(arg_start_number t \<mapsto> mpz_add_ui v 1)))
     | Finished \<Rightarrow> Returns (t, h))"

text \<open>A worker running alone for \<open>n\<close> steps.\<close>

fun thread_procedure_run :: "nat \<Rightarrow> nat \<Rightarrow> thread \<times> store \<Rightarrow> (thread \<times> store) result" where
  "thread_procedure_run 0 k c = Returns c"
| "thread_procedure_run (Suc n) k c =
     (case thread_procedure_step k c of
        Undefined_behaviour \<Rightarrow> Undefined_behaviour
      | Returns c' \<Rightarrow> thread_procedure_run n k c')"

definition has_returned :: "(thread \<times> store) result \<Rightarrow> bool" where
  "has_returned r = (case r of Undefined_behaviour \<Rightarrow> False | Returns (t, h) \<Rightarrow> at t = Finished)"

text \<open>
  The state of the program during the checking loop of \<^verbatim>\<open>main\<close> (lines 114 to 145).
  \<open>announced\<close> is the list of ranges printed by line 117 and \<open>completed\<close> counts the
  executions of line 144; \<open>faulted\<close> records that some thread has read a cleared
  integer, after which nothing is known about the run.
\<close>

datatype main_pc =
    Announce              \<comment> \<open>lines 116 and 117\<close>
  | Init_thread_start     \<comment> \<open>lines 122 to 126, up to \<^verbatim>\<open>i{}\<close>\<close>
  | Launch_test           \<comment> \<open>line 126: \<^verbatim>\<open>i < thread_count\<close>\<close>
  | Launch                \<comment> \<open>lines 128 and 129\<close>
  | Advance_thread_start  \<comment> \<open>line 131, then \<^verbatim>\<open>++i\<close>\<close>
  | Clear_thread_start    \<comment> \<open>line 134\<close>
  | Join                  \<comment> \<open>line 137\<close>
  | Next_batch            \<comment> \<open>line 144\<close>

record state =
  heap :: store
  main_at :: main_pc
  main_i :: "32 word"
  threads :: "thread list"
  announced :: "(int \<times> int) list"
  completed :: nat
  faulted :: bool

text \<open>The state when the checking loop is entered: line 103 has copied the start number.\<close>

definition initial :: "int \<Rightarrow> state" where
  "initial start =
     \<lparr>heap = [Batch_start_number \<mapsto> start, Batch_end_number \<mapsto> start],
      main_at = Announce, main_i = 0, threads = [], announced = [], completed = 0,
      faulted = False\<rparr>"

definition main_step :: "config \<Rightarrow> state \<Rightarrow> state" where
  "main_step cfg s =
     (case main_at s of
        Announce \<Rightarrow>
          (case (heap s Batch_start_number, heap s Batch_end_number) of
             (Some b, Some e) \<Rightarrow>
               s\<lparr>heap := (heap s)(Batch_end_number \<mapsto> mpz_add_ui e (batch_size cfg)),
                 announced := announced s @ [(b, mpz_add_ui e (batch_size cfg))],
                 main_at := Init_thread_start\<rparr>
           | _ \<Rightarrow> s\<lparr>faulted := True\<rparr>)
      | Init_thread_start \<Rightarrow>
          (case heap s Batch_start_number of
             Some b \<Rightarrow>
               s\<lparr>heap := (heap s)(Thread_start_number \<mapsto> b), threads := [], main_i := 0,
                 main_at := Launch_test\<rparr>
           | None \<Rightarrow> s\<lparr>faulted := True\<rparr>)
      | Launch_test \<Rightarrow>
          s\<lparr>main_at := if ucast (main_i s) < thread_count cfg then Launch
                        else Clear_thread_start\<rparr>
      | Launch \<Rightarrow>
          s\<lparr>threads := threads s @ [new_thread Thread_start_number (iterations_per_thread cfg)],
            main_at := Advance_thread_start\<rparr>
      | Advance_thread_start \<Rightarrow>
          (case heap s Thread_start_number of
             Some v \<Rightarrow>
               s\<lparr>heap := (heap s)(Thread_start_number \<mapsto> mpz_add_ui v (iterations_per_thread cfg)),
                 main_i := main_i s + 1, main_at := Launch_test\<rparr>
           | None \<Rightarrow> s\<lparr>faulted := True\<rparr>)
      | Clear_thread_start \<Rightarrow>
          s\<lparr>heap := (heap s)(Thread_start_number := None), main_at := Join\<rparr>
      | Join \<Rightarrow>
          (if list_all (\<lambda>t. at t = Finished) (threads s) then s\<lparr>main_at := Next_batch\<rparr> else s)
      | Next_batch \<Rightarrow>
          (case heap s Batch_start_number of
             Some b \<Rightarrow>
               s\<lparr>heap := (heap s)(Batch_start_number \<mapsto> mpz_add_ui b (batch_size cfg)),
                 completed := Suc (completed s), main_at := Announce\<rparr>
           | None \<Rightarrow> s\<lparr>faulted := True\<rparr>))"

definition worker_step :: "nat \<Rightarrow> state \<Rightarrow> state" where
  "worker_step k s =
     (if k < length (threads s)
      then (case thread_procedure_step k (threads s ! k, heap s) of
              Undefined_behaviour \<Rightarrow> s\<lparr>faulted := True\<rparr>
            | Returns (t, h) \<Rightarrow> s\<lparr>threads := (threads s)[k := t], heap := h\<rparr>)
      else s)"

datatype tid = Main_thread | Worker nat

definition step :: "config \<Rightarrow> tid \<Rightarrow> state \<Rightarrow> state" where
  "step cfg t s =
     (if faulted s then s
      else (case t of Main_thread \<Rightarrow> main_step cfg s | Worker k \<Rightarrow> worker_step k s))"

text \<open>The run under a schedule: the list of the threads that step, in order.\<close>

fun run :: "config \<Rightarrow> tid list \<Rightarrow> state \<Rightarrow> state" where
  "run cfg [] s = s"
| "run cfg (t # ts) s = run cfg ts (step cfg t s)"

subsection \<open>Executions used as examples\<close>

text \<open>
  Two threads, one iteration each. In \<open>workers_run_at_launch\<close> each worker runs to
  its end as soon as it is launched; in \<open>workers_run_after_clear\<close> the scheduler
  reaches line 134 before the first worker starts.
\<close>

definition example_config :: config where
  "example_config = \<lparr>thread_count = 2, iterations_per_thread = 1\<rparr>"

definition workers_run_at_launch :: "tid list" where
  "workers_run_at_launch =
     [Main_thread, Main_thread, Main_thread, Main_thread,
      Worker 0, Worker 0, Worker 0, Worker 0,
      Main_thread, Main_thread, Main_thread,
      Worker 1, Worker 1, Worker 1, Worker 1,
      Main_thread, Main_thread, Main_thread, Main_thread, Main_thread]"

definition workers_run_after_clear :: "tid list" where
  "workers_run_after_clear =
     [Main_thread, Main_thread, Main_thread, Main_thread,
      Main_thread, Main_thread, Main_thread,
      Main_thread, Main_thread, Main_thread,
      Worker 0, Worker 0]"

text \<open>
  The scenario of the specification: two threads, three iterations each (with start
  number 10), the assignments it expects, and the schedule in which each worker
  runs to its end as soon as it is launched.
\<close>

definition spec_scenario :: config where
  "spec_scenario = \<lparr>thread_count = 2, iterations_per_thread = 3\<rparr>"

definition claimed_assignments :: "int \<Rightarrow> int list list" where
  "claimed_assignments start =
     [[start, start + 1, start + 2], [start + 3, start + 4, start + 5]]"

definition scenario_workers_run_at_launch :: "tid list" where
  "scenario_workers_run_at_launch =
     [Main_thread, Main_thread, Main_thread, Main_thread,
      Worker 0, Worker 0, Worker 0, Worker 0, Worker 0,
      Worker 0, Worker 0, Worker 0, Worker 0, Worker 0,
      Main_thread, Main_thread, Main_thread,
      Worker 1, Worker 1, Worker 1, Worker 1, Worker 1,
      Worker 1, Worker 1, Worker 1, Worker 1, Worker 1,
      Main_thread, Main_thread, Main_thread, Main_thread]"

text \<open>A configuration whose product does not fit 64 bits.\<close>

definition overflowing_config :: config where
  "overflowing_config = \<lparr>thread_count = 2, iterations_per_thread = 9223372036854775808\<rparr>"

subsection \<open>Invariants of the run\<close>

text \<open>Every worker holds the address of the scheduler's \<^verbatim>\<open>thread_start_number\<close>.\<close>

definition shares_counter :: "state \<Rightarrow> bool" where
  "shares_counter s = list_all (\<lambda>t. arg_start_number t = Thread_start_number) (threads s)"

text \<open>The batch start is the start number plus one batch size for each completed batch.\<close>

definition batch_start_inv :: "config \<Rightarrow> int \<Rightarrow> state \<Rightarrow> bool" where
  "batch_start_inv cfg start s \<longleftrightarrow>
     heap s Batch_start_number = Some (start + int (completed s) * uint (batch_size cfg))"

text \<open>
  The invariant of the first batch of the scenario. While the counter is live the
  scheduler is in its launch loop and the counter is at least the start number plus
  three for each addition of line 131 plus the increments of worker 0.
\<close>

text \<open>A worker of the scenario: its counter and the length of its list agree with its place.\<close>

definition thread_ok :: "thread \<Rightarrow> bool" where
  "thread_ok t \<longleftrightarrow>
     arg_start_number t = Thread_start_number \<and> arg_iterations t = 3 \<and>
     (case at t of
        Loop_test \<Rightarrow> unat (var_i t) \<le> 3 \<and> length (verified t) = unat (var_i t)
      | Call_verifier \<Rightarrow> unat (var_i t) < 3 \<and> length (verified t) = unat (var_i t)
      | Increment \<Rightarrow> unat (var_i t) < 3 \<and> length (verified t) = Suc (unat (var_i t))
      | Finished \<Rightarrow> unat (var_i t) \<le> 3 \<and> length (verified t) = unat (var_i t))"

text \<open>The increments that worker 0 has made.\<close>

definition increments0 :: "thread list \<Rightarrow> int" where
  "increments0 ts = (case ts of [] \<Rightarrow> 0 | t # _ \<Rightarrow> uint (var_i t))"

definition phase_ok :: "int \<Rightarrow> state \<Rightarrow> bool" where
  "phase_ok start s \<longleftrightarrow>
     (case main_at s of
        Announce \<Rightarrow> threads s = []
      | Init_thread_start \<Rightarrow> threads s = []
      | Launch_test \<Rightarrow> length (threads s) = unat (main_i s) \<and> unat (main_i s) \<le> 2
      | Launch \<Rightarrow> length (threads s) = unat (main_i s) \<and> unat (main_i s) < 2
      | Advance_thread_start \<Rightarrow> length (threads s) = Suc (unat (main_i s)) \<and> unat (main_i s) < 2
      | Clear_thread_start \<Rightarrow> length (threads s) = unat (main_i s) \<and> unat (main_i s) = 2
      | Join \<Rightarrow> heap s Thread_start_number = None
      | Next_batch \<Rightarrow> heap s Thread_start_number = None) \<and>
     (main_at s \<in> {Launch_test, Launch, Advance_thread_start, Clear_thread_start} \<longrightarrow>
        (\<exists>c. heap s Thread_start_number = Some c \<and>
             start + 3 * uint (main_i s) + increments0 (threads s) \<le> c))"

text \<open>Worker 1 has begun with the start claimed for it.\<close>

definition begins_as_claimed :: "int \<Rightarrow> int list \<Rightarrow> bool" where
  "begins_as_claimed start v1 = (case v1 of [] \<Rightarrow> False | v # _ \<Rightarrow> v = start + 3)"

text \<open>
  Worker 0 has not verified all of its claimed assignment: some value differs or
  is missing.
\<close>

definition departs :: "int \<Rightarrow> int list \<Rightarrow> bool" where
  "departs start v0 \<longleftrightarrow>
     (\<exists>j<length v0. v0 ! j \<noteq> start + int j) \<or> length v0 < 3"

definition not_both :: "int \<Rightarrow> int list list \<Rightarrow> bool" where
  "not_both start vs =
     (case vs of v0 # v1 # _ \<Rightarrow> begins_as_claimed start v1 \<longrightarrow> departs start v0 | _ \<Rightarrow> True)"

definition first_batch_inv :: "int \<Rightarrow> state \<Rightarrow> bool" where
  "first_batch_inv start s \<longleftrightarrow>
     (completed s = 0 \<longrightarrow>
        heap s Batch_start_number = Some start \<and> phase_ok start s \<and>
        list_all thread_ok (threads s) \<and> not_both start (map verified (threads s)))"

section \<open>Properties of the verifier\<close>

lemmas gmp_defs =
  mpz_cmp_ui_def mpz_even_p_def mpz_divexact_ui_def mpz_mul_ui_def mpz_add_ui_def

lemma collatz_loop_unfold:
  assumes "h number = Some n"
  shows "collatz_loop number k h =
    (if n = 1 then Some (Returns (h, k))
     else collatz_loop number (Suc k) (h(number \<mapsto> spec_collatz_step n)))"
  using assms
  by (subst collatz_loop.simps) (simp add: gmp_defs spec_collatz_step_def mult.commute)

lemma first_reaches_one_0: "first_reaches_one n 0 \<longleftrightarrow> n = 1"
  by (simp add: first_reaches_one_def)

lemma first_reaches_one_Suc:
  "first_reaches_one n (Suc j) \<longleftrightarrow> n \<noteq> 1 \<and> first_reaches_one (spec_collatz_step n) j"
proof -
  have "(\<forall>i<Suc j. (spec_collatz_step ^^ i) n \<noteq> 1) \<longleftrightarrow>
        n \<noteq> 1 \<and> (\<forall>i<j. (spec_collatz_step ^^ i) (spec_collatz_step n) \<noteq> 1)"
    by (auto simp: less_Suc_eq_0_disj funpow_swap1)
  then show ?thesis
    by (auto simp: first_reaches_one_def funpow_swap1)
qed

lemma first_reaches_one_unique:
  "first_reaches_one n j \<Longrightarrow> first_reaches_one n j' \<Longrightarrow> j = j'"
  unfolding first_reaches_one_def by (metis linorder_neqE_nat)

lemma collatz_loop_complete:
  "first_reaches_one n j \<Longrightarrow> h number = Some n \<Longrightarrow>
   collatz_loop number k h = Some (Returns (h(number \<mapsto> 1), k + j))"
proof (induction j arbitrary: n h k)
  case 0
  then have "n = 1" by (simp add: first_reaches_one_0)
  with 0 have "h(number \<mapsto> 1) = h" by (simp add: fun_upd_idem)
  moreover have "collatz_loop number k h = Some (Returns (h, k))"
    using 0(2) \<open>n = 1\<close> by (simp add: collatz_loop_unfold [of h number n])
  ultimately show ?case by (simp only: add_0_right)
next
  case (Suc j)
  then have n: "n \<noteq> 1" and r: "first_reaches_one (spec_collatz_step n) j"
    by (simp_all add: first_reaches_one_Suc)
  have "collatz_loop number k h =
        collatz_loop number (Suc k) (h(number \<mapsto> spec_collatz_step n))"
    using n Suc.prems(2) by (simp add: collatz_loop_unfold [of h number n])
  also have "\<dots> =
        Some (Returns ((h(number \<mapsto> spec_collatz_step n))(number \<mapsto> 1), Suc k + j))"
    by (rule Suc.IH [OF r]) simp
  also have "(h(number \<mapsto> spec_collatz_step n))(number \<mapsto> 1) = h(number \<mapsto> 1)"
    by (rule fun_upd_upd)
  also have "Suc k + j = k + Suc j" by simp
  finally show ?case .
qed

lemma collatz_loop_sound_aux:
  assumes "collatz_loop number k h = Some r"
  shows "\<forall>n. h number = Some n \<longrightarrow>
           (\<exists>j. first_reaches_one n j \<and> r = Returns (h(number \<mapsto> 1), k + j))"
proof (rule collatz_loop.raw_induct
    [where P = "\<lambda>number k h r. \<forall>n. h number = Some n \<longrightarrow>
       (\<exists>j. first_reaches_one n j \<and> r = Returns (h(number \<mapsto> 1), k + j))", OF _ assms])
  fix loop :: "addr \<Rightarrow> nat \<Rightarrow> store \<Rightarrow> (store \<times> nat) result option"
    and number steps h r
  assume IH: "\<And>number steps h r. loop number steps h = Some r \<Longrightarrow>
      \<forall>n. h number = Some n \<longrightarrow>
        (\<exists>j. first_reaches_one n j \<and> r = Returns (h(number \<mapsto> 1), steps + j))"
    and body: "(case h number of
        None \<Rightarrow> Some Undefined_behaviour
      | Some n \<Rightarrow>
          if mpz_cmp_ui n 1 = 0 then Some (Returns (h, steps))
          else if mpz_even_p n
            then loop number (Suc steps) (h(number \<mapsto> mpz_divexact_ui n 2))
            else loop number (Suc steps)
                   (h(number \<mapsto> mpz_add_ui (mpz_mul_ui n 3) 1))) = Some r"
  show "\<forall>n. h number = Some n \<longrightarrow>
      (\<exists>j. first_reaches_one n j \<and> r = Returns (h(number \<mapsto> 1), steps + j))"
  proof (intro allI impI)
    fix n
    assume n: "h number = Some n"
    show "\<exists>j. first_reaches_one n j \<and> r = Returns (h(number \<mapsto> 1), steps + j)"
    proof (cases "n = 1")
      case True
      with n body have "r = Returns (h, steps)" by (simp add: gmp_defs)
      moreover from True n have "h(number \<mapsto> 1) = h" by (simp add: fun_upd_idem)
      ultimately have "first_reaches_one n 0 \<and> r = Returns (h(number \<mapsto> 1), steps + 0)"
        using True by (simp add: first_reaches_one_0)
      then show ?thesis ..
    next
      case False
      with n body
      have "loop number (Suc steps) (h(number \<mapsto> spec_collatz_step n)) = Some r"
        by (simp add: gmp_defs spec_collatz_step_def mult.commute split: if_splits)
      from IH [OF this] have "\<exists>j. first_reaches_one (spec_collatz_step n) j \<and>
          r = Returns ((h(number \<mapsto> spec_collatz_step n))(number \<mapsto> 1), Suc steps + j)"
        by (simp only: fun_upd_same simp_thms)
      then obtain j where "first_reaches_one (spec_collatz_step n) j"
        and "r = Returns (h(number \<mapsto> 1), Suc steps + j)"
        unfolding fun_upd_upd by blast
      with False
      have "first_reaches_one n (Suc j) \<and> r = Returns (h(number \<mapsto> 1), steps + Suc j)"
        by (simp add: first_reaches_one_Suc)
      then show ?thesis ..
    qed
  qed
qed

lemma collatz_loop_sound:
  "collatz_loop number k h = Some r \<Longrightarrow> h number = Some n \<Longrightarrow>
   \<exists>j. first_reaches_one n j \<and> r = Returns (h(number \<mapsto> 1), k + j)"
  using collatz_loop_sound_aux by blast

lemma reaches_one_first:
  assumes "(spec_collatz_step ^^ j) n = 1"
  shows "\<exists>j. first_reaches_one n j"
proof -
  define m where "m = (LEAST i. (spec_collatz_step ^^ i) n = 1)"
  have "(spec_collatz_step ^^ m) n = 1"
    unfolding m_def using assms by (rule LeastI)
  moreover have "\<forall>i<m. (spec_collatz_step ^^ i) n \<noteq> 1"
    unfolding m_def using not_less_Least by blast
  ultimately have "first_reaches_one n m" by (simp add: first_reaches_one_def)
  then show ?thesis ..
qed

lemma collatz_conjecture_complete:
  assumes "first_reaches_one v j" and "h start_number = Some v"
  shows "collatz_conjecture number start_number h = Some (Returns (h(number := None), j))"
proof -
  have "collatz_loop number 0 (h(number \<mapsto> v)) =
        Some (Returns ((h(number \<mapsto> v))(number \<mapsto> 1), 0 + j))"
    using assms(1) by (rule collatz_loop_complete) (rule fun_upd_same)
  then show ?thesis using assms(2)
    by (simp add: collatz_conjecture_def)
qed

lemma collatz_conjecture_sound:
  assumes "collatz_conjecture number start_number h = Some r" and "h start_number = Some v"
  shows "\<exists>j. first_reaches_one v j \<and> r = Returns (h(number := None), j)"
proof -
  from assms obtain r' where loop: "collatz_loop number 0 (h(number \<mapsto> v)) = Some r'"
    by (auto simp: collatz_conjecture_def split: option.splits)
  have "(h(number \<mapsto> v)) number = Some v" by (rule fun_upd_same)
  with loop obtain j where j: "first_reaches_one v j"
    and r': "r' = Returns ((h(number \<mapsto> v))(number \<mapsto> 1), 0 + j)"
    using collatz_loop_sound by blast
  from assms loop r' have "r = Returns (h(number := None), j)"
    by (simp add: collatz_conjecture_def)
  with j show ?thesis by blast
qed

lemma collatz_conjecture_frame:
  assumes "collatz_conjecture number start_number h = Some (Returns (h', steps))"
  shows "h' = h(number := None)"
proof -
  from assms obtain v where v: "h start_number = Some v"
    by (auto simp: collatz_conjecture_def split: option.splits)
  from collatz_conjecture_sound [OF assms v] show ?thesis by auto
qed

text \<open>
  Claim C3. While the working value is not 1 the loop applies one Collatz step and
  goes round again: an even value \<open>c\<close> is replaced by \<open>c div 2\<close>, and twice that is
  \<open>c\<close> again (nothing is lost); an odd value is replaced by \<open>3 * c + 1\<close>. The loop
  returns exactly when the orbit of the working value reaches 1 for the first time,
  after that number of steps, with the working value equal to 1.
\<close>

theorem verifier_applies_collatz_step:
  assumes "h number = Some c"
  shows "collatz_loop number k h =
           (if c = 1 then Some (Returns (h, k))
            else collatz_loop number (Suc k)
                   (h(number \<mapsto> (if even c then c div 2 else 3 * c + 1))))
         \<and> (mpz_even_p c \<longrightarrow> 2 * mpz_divexact_ui c 2 = c)
         \<and> (\<not> mpz_even_p c \<longrightarrow> mpz_add_ui (mpz_mul_ui c 3) 1 = 3 * c + 1)
         \<and> (collatz_loop number k h = Some r \<longleftrightarrow>
              (\<exists>j. first_reaches_one c j \<and> r = Returns (h(number \<mapsto> 1), k + j)))"
proof (intro conjI)
  show "collatz_loop number k h =
           (if c = 1 then Some (Returns (h, k))
            else collatz_loop number (Suc k)
                   (h(number \<mapsto> (if even c then c div 2 else 3 * c + 1))))"
    using collatz_loop_unfold [of h number c k] assms by (simp add: spec_collatz_step_def)
  show "mpz_even_p c \<longrightarrow> 2 * mpz_divexact_ui c 2 = c"
    by (auto simp: gmp_defs)
  show "\<not> mpz_even_p c \<longrightarrow> mpz_add_ui (mpz_mul_ui c 3) 1 = 3 * c + 1"
    by (simp add: gmp_defs)
  show "collatz_loop number k h = Some r \<longleftrightarrow>
      (\<exists>j. first_reaches_one c j \<and> r = Returns (h(number \<mapsto> 1), k + j))"
    using collatz_loop_sound [of number k h r c] collatz_loop_complete [of c _ h number k] assms
    by blast
qed

lemma funpow_numeral_unfold: "(f ^^ numeral k) x = (f ^^ pred_numeral k) (f x)"
  by (simp add: numeral_eq_Suc funpow_swap1)

theorem verifier_applies_collatz_step_witness:
  "[Number 0 \<mapsto> 6::int] (Number 0) = Some 6 \<and>
   collatz_loop (Number 0) 0 [Number 0 \<mapsto> 6] = collatz_loop (Number 0) (Suc 0) [Number 0 \<mapsto> 3] \<and>
   2 * mpz_divexact_ui 6 2 = 6 \<and>
   first_reaches_one 6 8 \<and>
   collatz_loop (Number 0) 0 [Number 0 \<mapsto> 6] = Some (Returns ([Number 0 \<mapsto> 1], 8))"
proof -
  have h: "[Number 0 \<mapsto> 6::int] (Number 0) = Some 6" by simp
  have f: "first_reaches_one 6 8"
    by (simp add: first_reaches_one_def spec_collatz_step_def funpow_numeral_unfold
        less_Suc_eq numeral_eq_Suc)
  have e: "mpz_even_p 6" by (simp add: gmp_defs)
  from verifier_applies_collatz_step
    [of "[Number 0 \<mapsto> 6]" "Number 0" 6 0 "Returns ([Number 0 \<mapsto> 1], 8)"] f e h
  show ?thesis by auto
qed

text \<open>
  Claim C5. Let \<open>bound\<close> be a bound below which the Collatz orbit of every positive
  integer has been checked to reach 1. Then on every counter holding a positive
  value \<open>n\<close> below \<open>bound\<close> the loop of the verifier ends with the working value
  equal to 1, after exactly the number of steps at which the orbit of \<open>n\<close> first
  reaches 1, and the verifier returns with its local cleared. On the value 1 the
  loop ends at once, with zero Collatz steps.
\<close>

theorem verifier_terminates_below_verified_bound:
  assumes "\<forall>n. 0 < n \<and> n < bound \<longrightarrow> (\<exists>j. (spec_collatz_step ^^ j) n = 1)"
  shows "(\<forall>n h. 0 < n \<and> n < bound \<and> h start_number = Some n \<longrightarrow>
            (\<exists>j. first_reaches_one n j \<and>
                 collatz_loop number 0 (h(number \<mapsto> n)) = Some (Returns (h(number \<mapsto> 1), j)) \<and>
                 collatz_conjecture number start_number h = Some (Returns (h(number := None), j))))
         \<and> (\<forall>h. h start_number = Some 1 \<longrightarrow>
            collatz_loop number 0 (h(number \<mapsto> 1)) = Some (Returns (h(number \<mapsto> 1), 0)) \<and>
            collatz_conjecture number start_number h = Some (Returns (h(number := None), 0)))"
proof (intro conjI allI impI)
  fix n :: int and h :: store
  assume n: "0 < n \<and> n < bound \<and> h start_number = Some n"
  with assms obtain j where "(spec_collatz_step ^^ j) n = 1" by blast
  then obtain j' where j': "first_reaches_one n j'" using reaches_one_first by blast
  have "collatz_loop number 0 (h(number \<mapsto> n)) =
      Some (Returns ((h(number \<mapsto> n))(number \<mapsto> 1), 0 + j'))"
    using j' by (rule collatz_loop_complete) (rule fun_upd_same)
  then have l: "collatz_loop number 0 (h(number \<mapsto> n)) = Some (Returns (h(number \<mapsto> 1), j'))"
    by (simp only: fun_upd_upd add_0)
  from j' n have "collatz_conjecture number start_number h = Some (Returns (h(number := None), j'))"
    by (simp add: collatz_conjecture_complete)
  with j' l show "\<exists>j. first_reaches_one n j \<and>
      collatz_loop number 0 (h(number \<mapsto> n)) = Some (Returns (h(number \<mapsto> 1), j)) \<and>
      collatz_conjecture number start_number h = Some (Returns (h(number := None), j))"
    by blast
next
  fix h :: store
  assume "h start_number = Some 1"
  moreover have "first_reaches_one 1 0" by (simp add: first_reaches_one_0)
  ultimately show "collatz_conjecture number start_number h = Some (Returns (h(number := None), 0))"
    by (simp add: collatz_conjecture_complete)
next
  fix h :: store
  have "(h(number \<mapsto> 1)) number = Some 1" by (rule fun_upd_same)
  then show "collatz_loop number 0 (h(number \<mapsto> 1)) = Some (Returns (h(number \<mapsto> 1), 0))"
    by (simp add: collatz_loop_unfold [of "h(number \<mapsto> 1)" number 1 0])
qed

lemma orbits_below_8:
  "\<forall>n. 0 < n \<and> n < (8::int) \<longrightarrow> (\<exists>j. (spec_collatz_step ^^ j) n = 1)"
proof (intro allI impI)
  fix n :: int
  assume "0 < n \<and> n < 8"
  then consider "n = 1" | "n = 2" | "n = 3" | "n = 4" | "n = 5" | "n = 6" | "n = 7"
    by linarith
  then show "\<exists>j. (spec_collatz_step ^^ j) n = 1"
  proof cases
    case 1 then have "(spec_collatz_step ^^ 0) n = 1" by simp
    then show ?thesis ..
  next
    case 2 then have "(spec_collatz_step ^^ 1) n = 1"
      by (simp add: spec_collatz_step_def)
    then show ?thesis ..
  next
    case 3 then have "(spec_collatz_step ^^ 7) n = 1"
      by (simp add: spec_collatz_step_def funpow_numeral_unfold)
    then show ?thesis ..
  next
    case 4 then have "(spec_collatz_step ^^ 2) n = 1"
      by (simp add: spec_collatz_step_def funpow_numeral_unfold)
    then show ?thesis ..
  next
    case 5 then have "(spec_collatz_step ^^ 5) n = 1"
      by (simp add: spec_collatz_step_def funpow_numeral_unfold)
    then show ?thesis ..
  next
    case 6 then have "(spec_collatz_step ^^ 8) n = 1"
      by (simp add: spec_collatz_step_def funpow_numeral_unfold)
    then show ?thesis ..
  next
    case 7 then have "(spec_collatz_step ^^ 16) n = 1"
      by (simp add: spec_collatz_step_def funpow_numeral_unfold)
    then show ?thesis ..
  qed
qed

theorem verifier_terminates_below_verified_bound_witness:
  "list_all (\<lambda>n. \<exists>j. (spec_collatz_step ^^ j) n = 1) [1, 2, 3, 4, 5, 6, 7] \<and>
   first_reaches_one 7 16 \<and>
   collatz_loop (Number 0) 0 [Thread_start_number \<mapsto> 7, Number 0 \<mapsto> 7] =
     Some (Returns ([Thread_start_number \<mapsto> 7, Number 0 \<mapsto> 1], 16)) \<and>
   collatz_conjecture (Number 0) Thread_start_number [Thread_start_number \<mapsto> 7] =
     Some (Returns ([Thread_start_number \<mapsto> 7], 16)) \<and>
   collatz_conjecture (Number 0) Thread_start_number [Thread_start_number \<mapsto> 1] =
     Some (Returns ([Thread_start_number \<mapsto> 1], 0))"
proof -
  note t = verifier_terminates_below_verified_bound
    [OF orbits_below_8, of Thread_start_number "Number 0"]
  have e1: "[Thread_start_number \<mapsto> 1::int](Number 0 := None) = [Thread_start_number \<mapsto> 1]"
    and e7: "[Thread_start_number \<mapsto> 7::int](Number 0 := None) = [Thread_start_number \<mapsto> 7]"
    by (simp_all add: fun_eq_iff)
  have "[Thread_start_number \<mapsto> 1::int] Thread_start_number = Some 1" by simp
  with t have "collatz_conjecture (Number 0) Thread_start_number [Thread_start_number \<mapsto> 1] =
     Some (Returns ([Thread_start_number \<mapsto> 1](Number 0 := None), 0))" by blast
  then have one: "collatz_conjecture (Number 0) Thread_start_number [Thread_start_number \<mapsto> 1] =
     Some (Returns ([Thread_start_number \<mapsto> 1], 0))" by (simp only: e1)
  have c7: "collatz_conjecture (Number 0) Thread_start_number [Thread_start_number \<mapsto> 7] =
     Some (Returns ([Thread_start_number \<mapsto> 7], 16))"
    by (simp add: collatz_conjecture_def collatz_loop.simps gmp_defs)
  have "(0::int) < 7 \<and> (7::int) < 8 \<and> [Thread_start_number \<mapsto> 7::int] Thread_start_number = Some 7"
    by simp
  with t obtain j where j: "first_reaches_one 7 j"
    and l: "collatz_loop (Number 0) 0 [Thread_start_number \<mapsto> 7, Number 0 \<mapsto> 7] =
      Some (Returns ([Thread_start_number \<mapsto> 7, Number 0 \<mapsto> 1], j))"
    and c: "collatz_conjecture (Number 0) Thread_start_number [Thread_start_number \<mapsto> 7] =
      Some (Returns ([Thread_start_number \<mapsto> 7](Number 0 := None), j))"
    by blast
  from c c7 have "j = 16" by simp
  with j l have seven: "first_reaches_one 7 16 \<and>
      collatz_loop (Number 0) 0 [Thread_start_number \<mapsto> 7, Number 0 \<mapsto> 7] =
        Some (Returns ([Thread_start_number \<mapsto> 7, Number 0 \<mapsto> 1], 16))" by simp
  have "list_all (\<lambda>n. \<exists>j. (spec_collatz_step ^^ j) n = 1) [1, 2, 3, 4, 5, 6, 7]"
    using orbits_below_8 by simp
  with seven c7 one show ?thesis by blast
qed

text \<open>
  Claim C6. When the verifier returns, the caller's counter holds the value it held
  at the call: the verifier writes to its local \<^verbatim>\<open>number\<close> only, and every other
  object of the store is as before.
\<close>

theorem verifier_leaves_caller_counter_unchanged:
  assumes "h start_number = Some v" and "number \<noteq> start_number"
    and "collatz_conjecture number start_number h = Some (Returns (h', steps))"
  shows "h' start_number = Some v \<and> (\<forall>a. a \<noteq> number \<longrightarrow> h' a = h a)"
  using assms collatz_conjecture_frame [OF assms(3)] by simp

theorem verifier_leaves_caller_counter_unchanged_witness:
  "[Thread_start_number \<mapsto> 6::int] Thread_start_number = Some 6 \<and>
   Number 0 \<noteq> Thread_start_number \<and>
   collatz_conjecture (Number 0) Thread_start_number [Thread_start_number \<mapsto> 6] =
     Some (Returns ([Thread_start_number \<mapsto> 6], 8)) \<and>
   [Thread_start_number \<mapsto> 6::int] Thread_start_number = Some 6"
proof -
  have c: "collatz_conjecture (Number 0) Thread_start_number [Thread_start_number \<mapsto> 6] =
     Some (Returns ([Thread_start_number \<mapsto> 6], 8))"
    by (simp add: collatz_conjecture_def collatz_loop.simps gmp_defs)
  have h: "[Thread_start_number \<mapsto> 6::int] Thread_start_number = Some 6" by simp
  have n: "Number 0 \<noteq> Thread_start_number" by simp
  from verifier_leaves_caller_counter_unchanged [OF h n c] c n show ?thesis by simp
qed

section \<open>Properties of the input routines\<close>

lemmas input_defs = strtoull_def c_str_def isspace_def isdigit_def digit_value_def
  decimal_value_def is_numeric_def ULLONG_MAX_def

lemma get_int64_valid:
  "get_int64 lines = Some (result, rest) \<Longrightarrow> result \<noteq> ULLONG_MAX \<and> 0 < result"
  by (induction lines) (auto simp: Let_def split: if_splits)


lemma word64_range:
  fixes result :: "64 word"
  assumes "result \<noteq> ULLONG_MAX" and "0 < result"
  shows "1 \<le> unat result \<and> unat result \<le> 18446744073709551614"
proof -
  have "unat result \<noteq> 0" using assms(2) by (simp add: unat_gt_0 word_neq_0_conv)
  moreover have "unat result < 2 ^ 64" using unsigned_less [of result, where ?'a = nat] by simp
  moreover have "unat result \<noteq> 18446744073709551615"
    using assms(1) by (simp add: ULLONG_MAX_def word_unat_eq_iff)
  ultimately show ?thesis by simp
qed










text \<open>
  Claim C10. Every value returned by \<^verbatim>\<open>get_int64\<close> lies between 1 and \<open>2^64 - 2\<close>.
  On the digits of \<open>2^64 - 1\<close> \<^verbatim>\<open>strtoull\<close> returns \<^verbatim>\<open>ULLONG_MAX\<close>, the value it also
  returns on overflow, and the line is passed over like an invalid one.
\<close>

theorem get_int64_never_returns_zero_or_sentinel:
  "(get_int64 lines = Some (result, rest) \<longrightarrow>
      1 \<le> unat result \<and> unat result \<le> 18446744073709551614)
   \<and> strtoull (c_str ''18446744073709551615'') = ULLONG_MAX
   \<and> get_int64 (''18446744073709551615'' # lines) = get_int64 lines"
proof (intro conjI impI)
  assume "get_int64 lines = Some (result, rest)"
  then have "result \<noteq> ULLONG_MAX \<and> 0 < result" by (rule get_int64_valid)
  then show "1 \<le> unat result" "unat result \<le> 18446744073709551614"
    using word64_range by blast+
next
  show s: "strtoull (c_str ''18446744073709551615'') = ULLONG_MAX"
    by (simp add: input_defs)
  then show "get_int64 (''18446744073709551615'' # lines) = get_int64 lines"
    by (simp add: Let_def)
qed

theorem get_int64_never_returns_zero_or_sentinel_witness:
  "get_int64 [''18446744073709551615'', ''0'', ''18446744073709551614'', ''5''] =
     Some (18446744073709551614, [''5''])
   \<and> 1 \<le> unat (18446744073709551614 :: 64 word)
   \<and> unat (18446744073709551614 :: 64 word) \<le> 18446744073709551614
   \<and> get_int64 [''18446744073709551615'', ''5''] = get_int64 [''5'']"
proof -
  have g: "get_int64 [''18446744073709551615'', ''0'', ''18446744073709551614'', ''5''] =
     Some (18446744073709551614, [''5''])"
    by (simp add: input_defs)
  from get_int64_never_returns_zero_or_sentinel
    [of "[''18446744073709551615'', ''0'', ''18446744073709551614'', ''5'']"
      18446744073709551614 "[''5'']"] g
  have "1 \<le> unat (18446744073709551614 :: 64 word)
    \<and> unat (18446744073709551614 :: 64 word) \<le> 18446744073709551614" by blast
  moreover from get_int64_never_returns_zero_or_sentinel [of "[''5'']"]
  have "get_int64 [''18446744073709551615'', ''5''] = get_int64 [''5'']" by blast
  ultimately show ?thesis using g by blast
qed

section \<open>Properties of the worker procedure\<close>

lemma unsigned_counter_below:
  fixes i :: "32 word" and n :: "64 word"
  assumes "4294967296 \<le> unat n"
  shows "ucast i < n"
proof -
  have "unat i < 4294967296" using unsigned_less [of i, where ?'a = nat] by simp
  moreover have "unat (ucast i :: 64 word) = take_bit 64 (unat i)"
    using unsigned_ucast_eq [of i, where ?'a = nat and ?'c = 64] by simp
  ultimately have "unat (ucast i :: 64 word) < 4294967296" by (simp add: take_bit_nat_eq_self)
  with assms show ?thesis by (simp add: word_less_nat_alt)
qed

lemma thread_procedure_step_never_finishes:
  assumes "4294967296 \<le> unat (arg_iterations t)" and "at t \<noteq> Finished"
    and "thread_procedure_step k (t, h) = Returns (t', h')"
  shows "4294967296 \<le> unat (arg_iterations t') \<and> at t' \<noteq> Finished"
  using assms unsigned_counter_below [of "arg_iterations t" "var_i t"]
  by (cases "at t")
     (auto simp: thread_procedure_step_def split: option.splits result.splits)

lemma thread_procedure_run_never_finishes:
  assumes "4294967296 \<le> unat (arg_iterations t)" and "at t \<noteq> Finished"
  shows "\<not> has_returned (thread_procedure_run n k (t, h))"
  using assms
proof (induction n arbitrary: t h)
  case 0
  then show ?case by (simp add: has_returned_def)
next
  case (Suc n)
  show ?case
  proof (cases "thread_procedure_step k (t, h)")
    case Undefined_behaviour
    then show ?thesis by (simp add: has_returned_def)
  next
    case (Returns c)
    obtain t' h' where c: "c = (t', h')" by (cases c)
    from thread_procedure_step_never_finishes [OF Suc.prems Returns [unfolded c]]
    have "\<not> has_returned (thread_procedure_run n k (t', h'))"
      using Suc.IH by blast
    with Returns c show ?thesis by simp
  qed
qed

text \<open>
  Claim C2 (the code differs). With the iteration count \<open>2^32\<close> the worker never
  returns, however many steps it takes: its counter \<^verbatim>\<open>i\<close> is an \<^verbatim>\<open>unsigned\<close> and stays
  below the count.
\<close>

theorem worker_with_large_count_never_returns:
  "\<not> has_returned (thread_procedure_run n k (new_thread p 4294967296, h))"
  by (rule thread_procedure_run_never_finishes) (simp_all add: new_thread_def)

lemma thread_procedure_run_numeral:
  "thread_procedure_run (numeral n) k c =
     (case thread_procedure_step k c of
        Undefined_behaviour \<Rightarrow> Undefined_behaviour
      | Returns c' \<Rightarrow> thread_procedure_run (pred_numeral n) k c')"
  by (simp add: numeral_eq_Suc)

theorem worker_with_large_count_never_returns_witness:
  "get_int64 [''4294967296''] = Some (4294967296, []) \<and>
   \<not> has_returned
       (thread_procedure_run 7 0 (new_thread Thread_start_number 4294967296, [Thread_start_number \<mapsto> 1])) \<and>
   thread_procedure_run 7 0 (new_thread Thread_start_number 4294967296, [Thread_start_number \<mapsto> 1]) =
     Returns (\<lparr>arg_start_number = Thread_start_number, arg_iterations = 4294967296, var_i = 2,
                at = Call_verifier, verified = [1, 2]\<rparr>, [Thread_start_number \<mapsto> 3])"
proof -
  have "get_int64 [''4294967296''] = Some (4294967296, [])"
    by (simp add: input_defs)
  moreover
  have "thread_procedure_run 7 0 (new_thread Thread_start_number 4294967296, [Thread_start_number \<mapsto> 1]) =
     Returns (\<lparr>arg_start_number = Thread_start_number, arg_iterations = 4294967296, var_i = 2,
                at = Call_verifier, verified = [1, 2]\<rparr>, [Thread_start_number \<mapsto> 3])"
    by (simp add: thread_procedure_run_numeral thread_procedure_step_def new_thread_def
        collatz_conjecture_def collatz_loop.simps gmp_defs)
  ultimately show ?thesis
    using worker_with_large_count_never_returns
      [of 7 0 Thread_start_number "[Thread_start_number \<mapsto> 1]"]
    by blast
qed

lemma thread_procedure_run_add:
  "thread_procedure_run (m + n) k c =
     (case thread_procedure_run m k c of
        Undefined_behaviour \<Rightarrow> Undefined_behaviour
      | Returns c' \<Rightarrow> thread_procedure_run n k c')"
  by (induction m arbitrary: c) (simp_all split: result.splits)

lemma unat_ucast_counter:
  fixes i :: "32 word"
  shows "unat (ucast i :: 64 word) = unat i"
proof -
  have "unat i < 4294967296" using unsigned_less [of i, where ?'a = nat] by simp
  moreover have "unat (ucast i :: 64 word) = take_bit 64 (unat i)"
    using unsigned_ucast_eq [of i, where ?'a = nat and ?'c = 64] by simp
  ultimately show ?thesis by (simp add: take_bit_nat_eq_self)
qed

lemma one_iteration:
  assumes "at t = Loop_test" and "unat (var_i t) < unat (arg_iterations t)"
    and "arg_start_number t = p" and "p \<noteq> Number k" and "h p = Some v"
    and "first_reaches_one v j"
  shows "thread_procedure_run 3 k (t, h) =
     Returns (t\<lparr>var_i := var_i t + 1, verified := verified t @ [v]\<rparr>,
              (h(Number k := None))(p \<mapsto> v + 1))"
proof -
  have lt: "ucast (var_i t) < arg_iterations t"
    using assms(2) by (simp add: word_less_nat_alt unat_ucast_counter)
  have v: "collatz_conjecture (Number k) p h = Some (Returns (h(Number k := None), j))"
    using assms(6,5) by (rule collatz_conjecture_complete)
  have 1: "thread_procedure_step k (t, h) = Returns (t\<lparr>at := Call_verifier\<rparr>, h)"
    using assms(1) lt by (simp add: thread_procedure_step_def)
  have 2: "thread_procedure_step k (t\<lparr>at := Call_verifier\<rparr>, h) =
      Returns (t\<lparr>at := Increment, verified := verified t @ [v]\<rparr>, h(Number k := None))"
    using assms(3,5) v by (simp add: thread_procedure_step_def)
  have 3: "thread_procedure_step k
        (t\<lparr>at := Increment, verified := verified t @ [v]\<rparr>, h(Number k := None)) =
      Returns (t\<lparr>var_i := var_i t + 1, at := Loop_test, verified := verified t @ [v]\<rparr>,
               (h(Number k := None))(p \<mapsto> v + 1))"
    using assms(3,4,5) by (simp add: thread_procedure_step_def mpz_add_ui_def)
  have "t\<lparr>var_i := var_i t + 1, at := Loop_test, verified := verified t @ [v]\<rparr> =
        t\<lparr>var_i := var_i t + 1, verified := verified t @ [v]\<rparr>"
    using assms(1) by simp
  with 1 2 3 show ?thesis by (simp add: eval_nat_numeral)
qed

lemma worker_iterations:
  assumes "at t = Loop_test" and "arg_start_number t = p" and "p \<noteq> Number k"
    and "h p = Some v"
    and "unat (var_i t) + r \<le> unat (arg_iterations t)"
    and "unat (arg_iterations t) < 4294967296"
    and "\<forall>d<r. \<exists>j. first_reaches_one (v + int d) j"
  shows "\<exists>h'. thread_procedure_run (3 * r) k (t, h) =
           Returns (t\<lparr>var_i := var_i t + word_of_nat r,
                      verified := verified t @ map (\<lambda>d. v + int d) [0..<r]\<rparr>, h')
         \<and> h' p = Some (v + int r)"
  using assms
proof (induction r arbitrary: t h v)
  case 0
  then show ?case by simp
next
  case (Suc r)
  from Suc.prems(7) obtain j where j: "first_reaches_one v j" by force
  have lt: "unat (var_i t) < unat (arg_iterations t)" using Suc.prems(5) by simp
  define t1 where "t1 = t\<lparr>var_i := var_i t + 1, verified := verified t @ [v]\<rparr>"
  define h1 where "h1 = (h(Number k := None))(p \<mapsto> v + 1)"
  have first: "thread_procedure_run 3 k (t, h) = Returns (t1, h1)"
    unfolding t1_def h1_def
    using Suc.prems(1) lt Suc.prems(2,3,4) j by (rule one_iteration)
  have i1: "unat (var_i t + 1) = unat (var_i t) + 1"
    using Suc.prems(5,6) by (simp add: unat_add_lem [THEN iffD1])
  have "\<exists>h'. thread_procedure_run (3 * r) k (t1, h1) =
           Returns (t1\<lparr>var_i := var_i t1 + word_of_nat r,
                       verified := verified t1 @ map (\<lambda>d. (v + 1) + int d) [0..<r]\<rparr>, h')
         \<and> h' p = Some ((v + 1) + int r)"
  proof (rule Suc.IH)
    show "at t1 = Loop_test" using Suc.prems(1) by (simp add: t1_def)
    show "arg_start_number t1 = p" using Suc.prems(2) by (simp add: t1_def)
    show "p \<noteq> Number k" by (rule Suc.prems(3))
    show "h1 p = Some (v + 1)" by (simp add: h1_def)
    show "unat (var_i t1) + r \<le> unat (arg_iterations t1)"
      using Suc.prems(5) i1 by (simp add: t1_def)
    show "unat (arg_iterations t1) < 4294967296" using Suc.prems(6) by (simp add: t1_def)
    show "\<forall>d<r. \<exists>j. first_reaches_one (v + 1 + int d) j"
    proof (intro allI impI)
      fix d assume "d < r"
      then have "Suc d < Suc r" by simp
      with Suc.prems(7) have "\<exists>j. first_reaches_one (v + int (Suc d)) j" by blast
      then show "\<exists>j. first_reaches_one (v + 1 + int d) j" by (simp add: add.assoc)
    qed
  qed
  then obtain h' where
    rest: "thread_procedure_run (3 * r) k (t1, h1) =
           Returns (t1\<lparr>var_i := var_i t1 + word_of_nat r,
                       verified := verified t1 @ map (\<lambda>d. (v + 1) + int d) [0..<r]\<rparr>, h')"
    and h': "h' p = Some ((v + 1) + int r)" by blast
  have "map (\<lambda>d. v + int d) [0..<Suc r] = v # map (\<lambda>d. (v + 1) + int d) [0..<r]"
    by (simp add: map_upt_Suc add.assoc del: upt_Suc)
  then have t: "t1\<lparr>var_i := var_i t1 + word_of_nat r,
                  verified := verified t1 @ map (\<lambda>d. (v + 1) + int d) [0..<r]\<rparr> =
             t\<lparr>var_i := var_i t + word_of_nat (Suc r),
                verified := verified t @ map (\<lambda>d. v + int d) [0..<Suc r]\<rparr>"
    by (simp add: t1_def add.assoc)
  have "thread_procedure_run (3 * Suc r) k (t, h) = thread_procedure_run (3 + 3 * r) k (t, h)"
    by simp
  also have "\<dots> = thread_procedure_run (3 * r) k (t1, h1)"
    by (simp only: thread_procedure_run_add first result.case)
  finally have "thread_procedure_run (3 * Suc r) k (t, h) =
      Returns (t\<lparr>var_i := var_i t + word_of_nat (Suc r),
                 verified := verified t @ map (\<lambda>d. v + int d) [0..<Suc r]\<rparr>, h')"
    using rest t by simp
  moreover from h' have "h' p = Some (v + int (Suc r))" by (simp add: add.assoc)
  ultimately show ?case by blast
qed

lemma thread_procedure_verifies_range:
  assumes "unat c < 4294967296" and "p \<noteq> Number k" and "h p = Some s"
    and "\<forall>d<unat c. \<exists>j. first_reaches_one (s + int d) j"
  shows "\<exists>t' h'. thread_procedure_run (3 * unat c + 1) k (new_thread p c, h) = Returns (t', h')
    \<and> at t' = Finished \<and> verified t' = map (\<lambda>d. s + int d) [0..<unat c]
    \<and> h' p = Some (s + uint c)"
proof -
  define t0 where "t0 = new_thread p c"
  have "\<exists>h'. thread_procedure_run (3 * unat c) k (t0, h) =
           Returns (t0\<lparr>var_i := var_i t0 + word_of_nat (unat c),
                       verified := verified t0 @ map (\<lambda>d. s + int d) [0..<unat c]\<rparr>, h')
         \<and> h' p = Some (s + int (unat c))"
    using assms by (intro worker_iterations) (simp_all add: t0_def new_thread_def)
  then obtain h' where
    run: "thread_procedure_run (3 * unat c) k (t0, h) =
           Returns (t0\<lparr>var_i := word_of_nat (unat c),
                       verified := map (\<lambda>d. s + int d) [0..<unat c]\<rparr>, h')"
    and h': "h' p = Some (s + int (unat c))"
    by (auto simp: t0_def new_thread_def)
  define t1 where "t1 = t0\<lparr>var_i := word_of_nat (unat c),
                       verified := map (\<lambda>d. s + int d) [0..<unat c]\<rparr>"
  have "unat (ucast c :: 32 word) = take_bit 32 (unat c)"
    using unsigned_ucast_eq [of c, where ?'a = nat and ?'c = 32] by simp
  with assms(1) have "unat (word_of_nat (unat c) :: 32 word) = unat c"
    by (simp add: take_bit_nat_eq_self)
  then have "\<not> ucast (var_i t1) < arg_iterations t1"
    by (simp add: t1_def t0_def new_thread_def word_less_nat_alt unat_ucast_counter)
  moreover have "at t1 = Loop_test" by (simp add: t1_def t0_def new_thread_def)
  ultimately have last: "thread_procedure_step k (t1, h') = Returns (t1\<lparr>at := Finished\<rparr>, h')"
    by (simp add: thread_procedure_step_def)
  have "thread_procedure_run (3 * unat c + 1) k (t0, h) = Returns (t1\<lparr>at := Finished\<rparr>, h')"
    by (simp only: thread_procedure_run_add run result.case t1_def [symmetric])
       (simp add: last)
  moreover have "verified (t1\<lparr>at := Finished\<rparr>) = map (\<lambda>d. s + int d) [0..<unat c]"
    by (simp add: t1_def)
  ultimately show ?thesis using h' by (auto simp: t0_def)
qed


section \<open>Properties of the scheduler\<close>

lemmas sched_defs = step_def main_step_def worker_step_def thread_procedure_step_def new_thread_def
  batch_size_def initial_def collatz_conjecture_def gmp_defs

text \<open>What one step of a worker can change.\<close>

lemma thread_procedure_step_effect:
  assumes "thread_procedure_step k (t, h) = Returns (t', h')"
  shows "arg_start_number t' = arg_start_number t \<and> arg_iterations t' = arg_iterations t \<and>
         (\<forall>a. a \<noteq> arg_start_number t \<and> a \<noteq> Number k \<longrightarrow> h' a = h a)"
proof (cases "at t")
  case Loop_test
  with assms show ?thesis by (auto simp: thread_procedure_step_def)
next
  case Call_verifier
  show ?thesis
  proof (cases "collatz_conjecture (Number k) (arg_start_number t) h")
    case None
    with assms Call_verifier show ?thesis
      by (auto simp: thread_procedure_step_def split: option.splits)
  next
    case (Some r)
    with assms Call_verifier obtain h'' steps where r: "r = Returns (h'', steps)"
      and t': "t' = t\<lparr>at := Increment, verified := verified t @ [the (h (arg_start_number t))]\<rparr>"
      and h': "h' = h''"
      by (auto simp: thread_procedure_step_def split: option.splits result.splits)
    from Some r have "h'' = h(Number k := None)" by (simp add: collatz_conjecture_frame)
    with t' h' show ?thesis by simp
  qed
next
  case Increment
  with assms show ?thesis
    by (auto simp: thread_procedure_step_def split: option.splits)
next
  case Finished
  with assms show ?thesis by (auto simp: thread_procedure_step_def)
qed

lemma shares_counter_main_step:
  "shares_counter s \<Longrightarrow> shares_counter (main_step cfg s)"
  by (cases "main_at s")
     (auto simp: shares_counter_def main_step_def new_thread_def split: option.splits)

lemma shares_counter_worker_step:
  assumes "shares_counter s"
  shows "shares_counter (worker_step k s)"
proof (cases "k < length (threads s)")
  case False
  with assms show ?thesis by (simp add: worker_step_def)
next
  case True
  show ?thesis
  proof (cases "thread_procedure_step k (threads s ! k, heap s)")
    case Undefined_behaviour
    with assms True show ?thesis by (simp add: worker_step_def shares_counter_def)
  next
    case (Returns c)
    obtain t' h' where c: "c = (t', h')" by (cases c)
    from thread_procedure_step_effect [OF Returns [unfolded c]]
    have "arg_start_number t' = arg_start_number (threads s ! k)" by simp
    moreover from assms True have "arg_start_number (threads s ! k) = Thread_start_number"
      by (simp add: shares_counter_def list_all_length)
    ultimately have "list_all (\<lambda>t. arg_start_number t = Thread_start_number) ((threads s)[k := t'])"
      using assms by (auto simp: shares_counter_def list_all_iff dest: set_update_subset_insert [THEN subsetD])
    with True Returns c show ?thesis by (simp add: worker_step_def shares_counter_def)
  qed
qed

lemma shares_counter_step: "shares_counter s \<Longrightarrow> shares_counter (step cfg t s)"
  by (cases t) (simp_all add: step_def shares_counter_main_step shares_counter_worker_step)

lemma shares_counter_run: "shares_counter s \<Longrightarrow> shares_counter (run cfg schedule s)"
  by (induction schedule arbitrary: s) (simp_all add: shares_counter_step)

lemma shares_counter_initial: "shares_counter (initial start)"
  by (simp add: shares_counter_def initial_def)

lemma batch_start_inv_main_step:
  "batch_start_inv cfg start s \<Longrightarrow> batch_start_inv cfg start (main_step cfg s)"
  by (cases "main_at s")
     (auto simp: batch_start_inv_def main_step_def mpz_add_ui_def algebra_simps
           split: option.splits)

lemma batch_start_inv_worker_step:
  assumes "batch_start_inv cfg start s" and "shares_counter s"
  shows "batch_start_inv cfg start (worker_step k s)"
proof (cases "k < length (threads s)")
  case False
  with assms show ?thesis by (simp add: worker_step_def)
next
  case True
  show ?thesis
  proof (cases "thread_procedure_step k (threads s ! k, heap s)")
    case Undefined_behaviour
    with assms True show ?thesis by (simp add: worker_step_def batch_start_inv_def)
  next
    case (Returns c)
    obtain t' h' where c: "c = (t', h')" by (cases c)
    from assms(2) True have "arg_start_number (threads s ! k) = Thread_start_number"
      by (simp add: shares_counter_def list_all_length)
    with thread_procedure_step_effect [OF Returns [unfolded c]]
    have "h' Batch_start_number = heap s Batch_start_number" by simp
    with assms(1) True Returns c show ?thesis
      by (simp add: worker_step_def batch_start_inv_def)
  qed
qed

lemma batch_start_inv_run:
  "batch_start_inv cfg start s \<Longrightarrow> shares_counter s \<Longrightarrow>
   batch_start_inv cfg start (run cfg schedule s)"
proof (induction schedule arbitrary: s)
  case Nil
  then show ?case by simp
next
  case (Cons t ts)
  have "batch_start_inv cfg start (step cfg t s)"
    using Cons.prems
    by (cases t) (simp_all add: step_def batch_start_inv_main_step batch_start_inv_worker_step)
  moreover have "shares_counter (step cfg t s)"
    using Cons.prems(2) by (rule shares_counter_step)
  ultimately show ?case using Cons.IH by simp
qed

text \<open>
  Claim C7. In every run without undefined behaviour, under every schedule, the
  batch start equals the start number plus the number of completed batches times
  the batch size: line 144 adds the batch size once for each batch and no other
  step of the scheduler or of a worker changes the batch start.
\<close>

theorem batch_start_advances_by_batch_size:
  assumes "\<not> faulted (run cfg schedule (initial start))"
  shows "heap (run cfg schedule (initial start)) Batch_start_number =
     Some (start + int (completed (run cfg schedule (initial start))) * uint (batch_size cfg))"
proof -
  have "batch_start_inv cfg start (initial start)"
    by (simp add: batch_start_inv_def initial_def)
  then have "batch_start_inv cfg start (run cfg schedule (initial start))"
    using shares_counter_initial by (rule batch_start_inv_run)
  then show ?thesis by (simp add: batch_start_inv_def)
qed

lemmas example_defs = example_config_def workers_run_at_launch_def

theorem batch_start_advances_by_batch_size_witness:
  "\<not> faulted (run example_config workers_run_at_launch (initial 1)) \<and>
   heap (run example_config workers_run_at_launch (initial 1)) Batch_start_number = Some 3 \<and>
   completed (run example_config workers_run_at_launch (initial 1)) = 1 \<and>
   uint (batch_size example_config) = 2"
proof -
  have c: "completed (run example_config workers_run_at_launch (initial 1)) = 1"
    by (simp add: example_defs sched_defs collatz_loop.simps)
  have b: "uint (batch_size example_config) = 2"
    by (simp add: example_defs batch_size_def)
  have f: "\<not> faulted (run example_config workers_run_at_launch (initial 1))"
    by (simp add: example_defs sched_defs collatz_loop.simps)
  from batch_start_advances_by_batch_size [OF f]
  have "heap (run example_config workers_run_at_launch (initial 1)) Batch_start_number = Some 3"
    unfolding c b by simp
  with c b f show ?thesis by blast
qed

text \<open>
  Claim C4 (the code differs). Both workers are started with the address of the
  scheduler's \<^verbatim>\<open>thread_start_number\<close>; no copy is made. The counter holds 1 when worker
  0 is launched, 2 after worker 0 has incremented it, and 3 after the scheduler has
  added the iteration count: the worker's write is seen by the scheduler and by
  worker 1. When the scheduler reaches line 134 first, the worker reads a cleared
  integer.
\<close>

theorem workers_share_the_scheduler_counter:
  "map arg_start_number (threads (run example_config workers_run_at_launch (initial 1))) =
     [Thread_start_number, Thread_start_number] \<and>
   heap (run example_config (take 4 workers_run_at_launch) (initial 1)) Thread_start_number = Some 1 \<and>
   heap (run example_config (take 7 workers_run_at_launch) (initial 1)) Thread_start_number = Some 2 \<and>
   heap (run example_config (take 11 workers_run_at_launch) (initial 1)) Thread_start_number = Some 3 \<and>
   faulted (run example_config workers_run_after_clear (initial 1))"
  by (simp add: example_defs workers_run_after_clear_def sched_defs collatz_loop.simps)

text \<open>
  Claim C8 as stated fails: with 2 threads and \<open>2^63\<close> iterations per thread the
  product is \<open>2^64\<close>, the batch size is 0 and the first range announced is 1 - 1.
\<close>

theorem batch_size_wraps_counterexample:
  "uint (thread_count overflowing_config) * uint (iterations_per_thread overflowing_config) =
     18446744073709551616 \<and>
   uint (batch_size overflowing_config) = 0 \<and>
   announced (main_step overflowing_config (initial 1)) = [(1, 1)]"
  by (simp add: overflowing_config_def batch_size_def main_step_def initial_def mpz_add_ui_def)

lemma batch_size_exact:
  assumes "unat (thread_count cfg) * unat (iterations_per_thread cfg) < 2 ^ 64"
  shows "uint (batch_size cfg) = uint (thread_count cfg) * uint (iterations_per_thread cfg)"
proof -
  have "unat (batch_size cfg) = unat (thread_count cfg) * unat (iterations_per_thread cfg)"
    unfolding batch_size_def using assms by (simp add: unat_mult_lem [THEN iffD1])
  then have "int (unat (batch_size cfg)) =
      int (unat (thread_count cfg)) * int (unat (iterations_per_thread cfg))" by simp
  then show ?thesis by simp
qed

text \<open>
  Claim C8, amended. When the product of the thread count and the iterations per
  thread is below \<open>2^64\<close>, the batch size is exactly that product; line 116 adds
  exactly that product to the end of the range it announces, and line 144 adds
  exactly that product to the batch start.
\<close>

theorem batch_size_is_product_when_it_fits:
  assumes "unat (thread_count cfg) * unat (iterations_per_thread cfg) < 2 ^ 64"
  shows "uint (batch_size cfg) = uint (thread_count cfg) * uint (iterations_per_thread cfg)
    \<and> (main_at s = Announce \<and> heap s Batch_start_number = Some b \<and> heap s Batch_end_number = Some e \<longrightarrow>
         heap (main_step cfg s) Batch_end_number =
           Some (e + uint (thread_count cfg) * uint (iterations_per_thread cfg)) \<and>
         announced (main_step cfg s) =
           announced s @ [(b, e + uint (thread_count cfg) * uint (iterations_per_thread cfg))])
    \<and> (main_at s = Next_batch \<and> heap s Batch_start_number = Some b \<longrightarrow>
         heap (main_step cfg s) Batch_start_number =
           Some (b + uint (thread_count cfg) * uint (iterations_per_thread cfg)))"
  using batch_size_exact [OF assms]
  by (auto simp: main_step_def mpz_add_ui_def)

theorem batch_size_is_product_when_it_fits_witness:
  "unat (thread_count example_config) * unat (iterations_per_thread example_config) < 2 ^ 64 \<and>
   uint (batch_size example_config) = 2 \<and>
   main_at (initial 1) = Announce \<and>
   heap (main_step example_config (initial 1)) Batch_end_number = Some 3 \<and>
   announced (main_step example_config (initial 1)) = [(1, 3)] \<and>
   main_at (run example_config (take 19 workers_run_at_launch) (initial 1)) = Next_batch \<and>
   heap (run example_config (take 19 workers_run_at_launch) (initial 1)) Batch_start_number = Some 1 \<and>
   heap (main_step example_config (run example_config (take 19 workers_run_at_launch) (initial 1)))
     Batch_start_number = Some 3"
proof -
  have fits: "unat (thread_count example_config) * unat (iterations_per_thread example_config) < 2 ^ 64"
    by (simp add: example_config_def)
  have a: "main_at (initial 1) = Announce \<and> heap (initial 1) Batch_start_number = Some 1 \<and>
      heap (initial 1) Batch_end_number = Some 1 \<and> announced (initial 1) = []"
    by (simp add: initial_def)
  have n: "main_at (run example_config (take 19 workers_run_at_launch) (initial 1)) = Next_batch \<and>
      heap (run example_config (take 19 workers_run_at_launch) (initial 1)) Batch_start_number = Some 1"
    by (simp add: example_defs sched_defs collatz_loop.simps)
  have p: "uint (thread_count example_config) * uint (iterations_per_thread example_config) = 2"
    by (simp add: example_config_def)
  note t1 = batch_size_is_product_when_it_fits [OF fits, of "initial 1" 1 1, unfolded p]
  note t2 = batch_size_is_product_when_it_fits
    [OF fits, of "run example_config (take 19 workers_run_at_launch) (initial 1)" 1, unfolded p]
  from t1 a have "uint (batch_size example_config) = 2 \<and>
      heap (main_step example_config (initial 1)) Batch_end_number = Some 3 \<and>
      announced (main_step example_config (initial 1)) = [(1, 3)]" by simp
  moreover from t2 n have "heap (main_step example_config
      (run example_config (take 19 workers_run_at_launch) (initial 1))) Batch_start_number = Some 3"
    by simp
  ultimately show ?thesis using fits a n by blast
qed

lemma run_append: "run cfg (xs @ ys) s = run cfg ys (run cfg xs s)"
  by (induction xs arbitrary: s) simp_all

lemma scheduler_alone_derives_starts:
  assumes "i \<le> unat (thread_count cfg)" and "unat (thread_count cfg) < 4294967296"
  shows "main_at (run cfg (replicate (2 + 3 * i) Main_thread) (initial start)) = Launch_test \<and>
         main_i (run cfg (replicate (2 + 3 * i) Main_thread) (initial start)) = word_of_nat i \<and>
         heap (run cfg (replicate (2 + 3 * i) Main_thread) (initial start)) Thread_start_number =
           Some (start + int i * uint (iterations_per_thread cfg)) \<and>
         threads (run cfg (replicate (2 + 3 * i) Main_thread) (initial start)) =
           replicate i (new_thread Thread_start_number (iterations_per_thread cfg)) \<and>
         \<not> faulted (run cfg (replicate (2 + 3 * i) Main_thread) (initial start))"
  using assms(1)
proof (induction i)
  case 0
  show ?case
    by (simp add: eval_nat_numeral step_def main_step_def initial_def)
next
  case (Suc i)
  define s where "s = run cfg (replicate (2 + 3 * i) Main_thread) (initial start)"
  from Suc have s: "main_at s = Launch_test" "main_i s = word_of_nat i"
    "heap s Thread_start_number = Some (start + int i * uint (iterations_per_thread cfg))"
    "threads s = replicate i (new_thread Thread_start_number (iterations_per_thread cfg))"
    "\<not> faulted s"
    by (simp_all add: s_def)
  have "unat (word_of_nat i :: 32 word) = i"
    using Suc.prems assms(2) by (simp add: unat_of_nat)
  then have lt: "ucast (main_i s) < thread_count cfg"
    using Suc.prems s(2) by (simp add: word_less_nat_alt unat_ucast_counter)
  have "2 + 3 * Suc i = (2 + 3 * i) + 3" by simp
  then have "run cfg (replicate (2 + 3 * Suc i) Main_thread) (initial start) =
      run cfg (replicate 3 Main_thread) s"
    by (simp only: replicate_add run_append s_def)
  also have "\<dots> = s\<lparr>heap := (heap s)(Thread_start_number \<mapsto>
                       start + int i * uint (iterations_per_thread cfg) +
                       uint (iterations_per_thread cfg)),
                   main_i := main_i s + 1,
                   threads := threads s @ [new_thread Thread_start_number (iterations_per_thread cfg)],
                   main_at := Launch_test\<rparr>"
    using s lt by (simp add: eval_nat_numeral step_def main_step_def mpz_add_ui_def)
  finally show ?case
    using s by (simp add: algebra_simps replicate_append_same)
qed


section \<open>The scenario of the specification under every schedule\<close>

lemma first_batch_inv_initial: "first_batch_inv start (initial start)"
  by (simp add: first_batch_inv_def initial_def phase_ok_def not_both_def)

lemma unat_word32_Suc:
  fixes i :: "32 word"
  assumes "unat i < 3"
  shows "unat (i + 1) = Suc (unat i)"
  using assms by (simp add: unat_add_lem [THEN iffD1])

lemma uint_word32_Suc:
  fixes i :: "32 word"
  assumes "unat i < 3"
  shows "uint (i + 1) = uint i + 1"
proof -
  have "int (unat (i + 1)) = int (Suc (unat i))"
    using assms by (simp only: unat_word32_Suc)
  then show ?thesis by simp
qed

lemma counter_test_2:
  fixes i :: "32 word"
  shows "ucast i < (2 :: 64 word) \<longleftrightarrow> unat i < 2"
  by (simp add: word_less_nat_alt unat_ucast_counter)

lemma counter_test_3:
  fixes i :: "32 word"
  shows "ucast i < (3 :: 64 word) \<longleftrightarrow> unat i < 3"
  by (simp add: word_less_nat_alt unat_ucast_counter)

lemma first_batch_inv_main_step:
  assumes "first_batch_inv start s"
  shows "first_batch_inv start (main_step spec_scenario s)"
proof (cases "completed s = 0")
  case False
  then have "completed (main_step spec_scenario s) \<noteq> 0"
    by (cases "main_at s") (auto simp: main_step_def split: option.splits)
  then show ?thesis by (simp add: first_batch_inv_def)
next
  case True
  with assms have b: "heap s Batch_start_number = Some start" and p: "phase_ok start s"
    and ok: "list_all thread_ok (threads s)"
    and k: "not_both start (map verified (threads s))"
    by (simp_all add: first_batch_inv_def)
  show ?thesis
  proof (cases "main_at s")
    case Announce
    with b p ok k True show ?thesis
      by (auto simp: first_batch_inv_def main_step_def phase_ok_def split: option.splits)
  next
    case Init_thread_start
    with b p ok k True show ?thesis
      by (auto simp: first_batch_inv_def main_step_def phase_ok_def increments0_def
          not_both_def split: option.splits)
  next
    case Launch_test
    with b p ok k True show ?thesis
      by (auto simp: first_batch_inv_def main_step_def phase_ok_def increments0_def
          spec_scenario_def counter_test_2 split: option.splits)
  next
    case Launch
    have new: "thread_ok (new_thread Thread_start_number 3)"
      by (simp add: thread_ok_def new_thread_def)
    have ver: "verified (new_thread Thread_start_number 3) = []"
      "var_i (new_thread Thread_start_number 3) = 0"
      by (simp_all add: new_thread_def)
    from Launch p have len: "length (threads s) < 2" by (simp add: phase_ok_def)
    then consider "threads s = []" | t0 where "threads s = [t0]"
      by (cases "threads s") (auto simp: length_Suc_conv)
    then show ?thesis
    proof cases
      case 1
      with Launch b p ok True new ver show ?thesis
        by (auto simp: first_batch_inv_def main_step_def phase_ok_def increments0_def
            spec_scenario_def unat_eq_0 not_both_def)
    next
      case 2
      with Launch b p ok True new ver show ?thesis
        by (auto simp: first_batch_inv_def main_step_def phase_ok_def increments0_def
            spec_scenario_def not_both_def begins_as_claimed_def)
    qed
  next
    case Advance_thread_start
    from Advance_thread_start p have i: "unat (main_i s) < 2" by (simp add: phase_ok_def)
    then have "unat (main_i s + 1) = Suc (unat (main_i s))"
      and "uint (main_i s + 1) = uint (main_i s) + 1"
      by (simp_all add: unat_word32_Suc uint_word32_Suc)
    with Advance_thread_start b p ok k True show ?thesis
      by (auto simp: first_batch_inv_def main_step_def phase_ok_def increments0_def
          spec_scenario_def mpz_add_ui_def split: option.splits)
  next
    case Clear_thread_start
    with b p ok k True show ?thesis
      by (auto simp: first_batch_inv_def main_step_def phase_ok_def)
  next
    case Join
    with b p ok k True show ?thesis
      by (auto simp: first_batch_inv_def main_step_def phase_ok_def)
  next
    case Next_batch
    with b show ?thesis
      by (auto simp: first_batch_inv_def main_step_def)
  qed
qed

lemma thread_procedure_step_kinds:
  assumes "arg_start_number t = Thread_start_number"
  shows "thread_procedure_step k (t, h) = Undefined_behaviour
     \<or> thread_procedure_step k (t, h) = Returns (t, h)
     \<or> (at t = Loop_test \<and> thread_procedure_step k (t, h) =
           Returns (t\<lparr>at := if ucast (var_i t) < arg_iterations t then Call_verifier
                               else Finished\<rparr>, h))
     \<or> (\<exists>c. at t = Call_verifier \<and> h Thread_start_number = Some c \<and>
           thread_procedure_step k (t, h) =
           Returns (t\<lparr>at := Increment, verified := verified t @ [c]\<rparr>, h(Number k := None)))
     \<or> (\<exists>c. at t = Increment \<and> h Thread_start_number = Some c \<and>
           thread_procedure_step k (t, h) =
           Returns (t\<lparr>var_i := var_i t + 1, at := Loop_test\<rparr>, h(Thread_start_number \<mapsto> c + 1)))"
proof (cases "at t")
  case Loop_test
  then show ?thesis by (simp add: thread_procedure_step_def)
next
  case Call_verifier
  show ?thesis
  proof (cases "h Thread_start_number")
    case None
    with Call_verifier assms show ?thesis by (simp add: thread_procedure_step_def)
  next
    case (Some c)
    show ?thesis
    proof (cases "collatz_conjecture (Number k) Thread_start_number h")
      case None
      with Call_verifier assms Some show ?thesis by (simp add: thread_procedure_step_def)
    next
      case r: (Some r)
      show ?thesis
      proof (cases r)
        case Undefined_behaviour
        with Call_verifier assms Some r show ?thesis by (simp add: thread_procedure_step_def)
      next
        case (Returns hs)
        obtain h' steps where hs: "hs = (h', steps)" by (cases hs)
        from r Returns hs have "h' = h(Number k := None)"
          by (simp add: collatz_conjecture_frame)
        with Call_verifier assms Some r Returns hs show ?thesis
          by (simp add: thread_procedure_step_def)
      qed
    qed
  qed
next
  case Increment
  with assms show ?thesis
    by (cases "h Thread_start_number") (simp_all add: thread_procedure_step_def mpz_add_ui_def)
next
  case Finished
  then show ?thesis by (simp add: thread_procedure_step_def)
qed

lemma increments0_update:
  "k < length ts \<Longrightarrow>
   increments0 (ts[k := t']) = (if k = 0 then uint (var_i t') else increments0 ts)"
  by (cases ts; cases k) (simp_all add: increments0_def)

lemma increments0_nonneg: "0 \<le> increments0 ts"
  by (cases ts) (simp_all add: increments0_def)

lemma map_verified_same:
  assumes "k < length ts" and "verified t' = verified (ts ! k)"
  shows "map verified (ts[k := t']) = map verified ts"
  using assms by (simp add: map_update list_update_same_conv)

lemma list_all_update:
  "list_all P ts \<Longrightarrow> P t' \<Longrightarrow> list_all P (ts[k := t'])"
  by (auto simp: list_all_iff dest: set_update_subset_insert [THEN subsetD])

text \<open>While the counter is live the scheduler is in its launch loop.\<close>

lemma phase_ok_live:
  assumes "phase_ok start s" and "heap s Thread_start_number = Some c" and "threads s \<noteq> []"
  shows "main_at s \<in> {Launch_test, Launch, Advance_thread_start, Clear_thread_start} \<and>
         start + 3 * uint (main_i s) + increments0 (threads s) \<le> c"
  using assms by (cases "main_at s") (auto simp: phase_ok_def)

lemma phase_ok_two_launched:
  assumes "phase_ok start s" and "heap s Thread_start_number = Some c"
    and "2 \<le> length (threads s)"
  shows "1 \<le> uint (main_i s)"
proof -
  have "1 \<le> unat (main_i s)"
    using assms by (cases "main_at s") (auto simp: phase_ok_def)
  then have "int 1 \<le> int (unat (main_i s))" by (simp only: of_nat_le_iff)
  then show ?thesis by simp
qed

lemma phase_ok_worker:
  assumes "phase_ok start s" and "length ts' = length (threads s)"
    and "heap s Thread_start_number = None \<longrightarrow> h' Thread_start_number = None"
    and "\<forall>c. heap s Thread_start_number = Some c \<longrightarrow>
           (\<exists>c'. h' Thread_start_number = Some c' \<and>
                 increments0 ts' - increments0 (threads s) \<le> c' - c)"
  shows "phase_ok start (s\<lparr>threads := ts', heap := h'\<rparr>)"
  using assms
  by (cases "main_at s") (auto simp: phase_ok_def)

lemma thread_ok_test:
  assumes "thread_ok t" and "at t = Loop_test"
  shows "thread_ok (t\<lparr>at := if ucast (var_i t) < arg_iterations t then Call_verifier else Finished\<rparr>)"
  using assms by (auto simp: thread_ok_def counter_test_3)

lemma thread_ok_verify:
  assumes "thread_ok t" and "at t = Call_verifier"
  shows "thread_ok (t\<lparr>at := Increment, verified := verified t @ [c]\<rparr>)"
  using assms by (auto simp: thread_ok_def)

lemma thread_ok_increment:
  assumes "thread_ok t" and "at t = Increment"
  shows "thread_ok (t\<lparr>var_i := var_i t + 1, at := Loop_test\<rparr>)"
  using assms by (auto simp: thread_ok_def unat_word32_Suc)

lemma departs_append:
  assumes "length v0 < 3" and "start + 3 \<le> c"
  shows "departs start (v0 @ [c])"
proof -
  from assms have "length v0 < length (v0 @ [c]) \<and>
      (v0 @ [c]) ! length v0 \<noteq> start + int (length v0)"
    by simp
  then show ?thesis unfolding departs_def by blast
qed

lemma not_both_update_other:
  assumes "not_both start vs" and "2 \<le> k"
  shows "not_both start (vs[k := v])"
proof -
  from assms(2) obtain k' where "k = Suc (Suc k')" by (auto simp: numeral_2_eq_2 le_Suc_eq dest: Suc_le_D)
  with assms(1) show ?thesis
    by (cases vs; cases "tl vs") (auto simp: not_both_def)
qed

lemma not_both_update_0:
  assumes "length v0 < 3" and "start + 3 \<le> c" and "vs ! 0 = v0"
  shows "not_both start (vs[0 := v0 @ [c]])"
  using assms departs_append [OF assms(1,2)]
  by (cases vs; cases "tl vs") (auto simp: not_both_def)

lemma not_both_update_1:
  assumes "not_both start vs" and "vs ! 1 = v1"
    and "v1 = [] \<and> c = start + 3 \<longrightarrow> length (vs ! 0) < 3"
  shows "not_both start (vs[1 := v1 @ [c]])"
proof (cases vs)
  case Nil
  then show ?thesis by (simp add: not_both_def)
next
  case (Cons a as)
  show ?thesis
  proof (cases as)
    case Nil
    with Cons show ?thesis by (simp add: not_both_def)
  next
    case (Cons b bs)
    with \<open>vs = a # as\<close> assms show ?thesis
      by (cases v1) (auto simp: not_both_def begins_as_claimed_def departs_def)
  qed
qed

lemma phase_ok_faulted: "phase_ok start (s\<lparr>faulted := True\<rparr>) = phase_ok start s"
  by (cases "main_at s") (simp_all add: phase_ok_def)

lemma first_batch_inv_worker_step:
  assumes "first_batch_inv start s"
  shows "first_batch_inv start (worker_step k s)"
proof (cases "completed s = 0 \<and> k < length (threads s)")
  case False
  then consider "completed s \<noteq> 0" | "\<not> k < length (threads s)" by auto
  then show ?thesis
  proof cases
    case 1
    then have "completed (worker_step k s) \<noteq> 0"
      by (auto simp: worker_step_def split: result.splits)
    then show ?thesis by (simp add: first_batch_inv_def)
  next
    case 2
    with assms show ?thesis by (simp add: worker_step_def)
  qed
next
  case True
  define ts where "ts = threads s"
  define h where "h = heap s"
  define t where "t = ts ! k"
  from True have k: "k < length ts" and c0: "completed s = 0" by (simp_all add: ts_def)
  from assms c0 have b: "h Batch_start_number = Some start" and p: "phase_ok start s"
    and ok: "list_all thread_ok ts" and nb: "not_both start (map verified ts)"
    by (simp_all add: first_batch_inv_def ts_def h_def)
  from ok k have tok: "thread_ok t" by (simp add: t_def list_all_length)
  then have ptr: "arg_start_number t = Thread_start_number" and cnt: "arg_iterations t = 3"
    by (simp_all add: thread_ok_def)
  have ws: "worker_step k s =
      (case thread_procedure_step k (t, h) of
         Undefined_behaviour \<Rightarrow> s\<lparr>faulted := True\<rparr>
       | Returns (t', h') \<Rightarrow> s\<lparr>threads := ts[k := t'], heap := h'\<rparr>)"
    unfolding ts_def h_def t_def worker_step_def using True by simp
  have invI: "first_batch_inv start (s\<lparr>threads := ts', heap := h'\<rparr>)"
    if "h' Batch_start_number = Some start" and "phase_ok start (s\<lparr>threads := ts', heap := h'\<rparr>)"
      and "list_all thread_ok ts'" and "not_both start (map verified ts')" for ts' h'
    using that by (simp add: first_batch_inv_def)
  from thread_procedure_step_kinds [OF ptr, of k h]
  consider
    (ub) "thread_procedure_step k (t, h) = Undefined_behaviour"
  | (same) "thread_procedure_step k (t, h) = Returns (t, h)"
  | (test) "at t = Loop_test" "thread_procedure_step k (t, h) =
       Returns (t\<lparr>at := if ucast (var_i t) < arg_iterations t then Call_verifier else Finished\<rparr>, h)"
  | (verify) c where "at t = Call_verifier" "h Thread_start_number = Some c"
      "thread_procedure_step k (t, h) =
       Returns (t\<lparr>at := Increment, verified := verified t @ [c]\<rparr>, h(Number k := None))"
  | (incr) c where "at t = Increment" "h Thread_start_number = Some c"
      "thread_procedure_step k (t, h) =
       Returns (t\<lparr>var_i := var_i t + 1, at := Loop_test\<rparr>, h(Thread_start_number \<mapsto> c + 1))"
    by blast
  then show ?thesis
  proof cases
    case ub
    with assms ws show ?thesis
      by (simp add: first_batch_inv_def phase_ok_faulted)
  next
    case same
    have "ts[k := t] = ts" by (simp add: t_def)
    with same ws have "worker_step k s = s" by (simp add: ts_def h_def)
    with assms show ?thesis by simp
  next
    case test
    define t' where "t' = t\<lparr>at := if ucast (var_i t) < arg_iterations t then Call_verifier else Finished\<rparr>"
    have w: "worker_step k s = s\<lparr>threads := ts[k := t'], heap := h\<rparr>"
      using ws test(2) by (simp add: t'_def)
    have v: "verified t' = verified (ts ! k)" and i: "var_i t' = var_i (ts ! k)"
      by (simp_all add: t'_def t_def)
    have "increments0 (ts[k := t']) = increments0 ts"
      using k i by (cases ts; cases k) (simp_all add: increments0_def)
    then have "phase_ok start (s\<lparr>threads := ts[k := t'], heap := h\<rparr>)"
      using p by (intro phase_ok_worker) (auto simp: ts_def h_def)
    moreover have "list_all thread_ok (ts[k := t'])"
      using ok tok test(1) unfolding t'_def by (intro list_all_update thread_ok_test)
    moreover have "not_both start (map verified (ts[k := t']))"
      using nb k v by (simp add: map_verified_same)
    ultimately show ?thesis unfolding w using b by (intro invI)
  next
    case verify
    define t' where "t' = t\<lparr>at := Increment, verified := verified t @ [c]\<rparr>"
    define h' where "h' = h(Number k := None)"
    have w: "worker_step k s = s\<lparr>threads := ts[k := t'], heap := h'\<rparr>"
      using ws verify(3) by (simp add: t'_def h'_def)
    have i: "var_i t' = var_i (ts ! k)" by (simp add: t'_def t_def)
    have inc: "increments0 (ts[k := t']) = increments0 ts"
      using k i by (cases ts; cases k) (simp_all add: increments0_def)
    have "phase_ok start (s\<lparr>threads := ts[k := t'], heap := h'\<rparr>)"
      using p inc by (intro phase_ok_worker) (auto simp: ts_def h_def h'_def)
    moreover have "list_all thread_ok (ts[k := t'])"
      using ok tok verify(1) unfolding t'_def by (intro list_all_update thread_ok_verify)
    moreover have "h' Batch_start_number = Some start" using b by (simp add: h'_def)
    moreover have "not_both start (map verified (ts[k := t']))"
    proof -
      have live: "heap s Thread_start_number = Some c" using verify(2) by (simp add: h_def)
      have ne: "threads s \<noteq> []" using k by (auto simp: ts_def)
      have m: "map verified (ts[k := t']) = (map verified ts)[k := verified t @ [c]]"
        by (simp add: map_update t'_def)
      have len: "length (verified t) < 3"
        using tok verify(1) by (simp add: thread_ok_def)
      show ?thesis
      proof (cases "2 \<le> length ts")
        case False
        then have "length (map verified (ts[k := t'])) < 2" by simp
        then show ?thesis
          by (cases "map verified (ts[k := t'])"; cases "tl (map verified (ts[k := t']))")
             (auto simp: not_both_def)
      next
        case two: True
        then have a: "1 \<le> uint (main_i s)"
          using phase_ok_two_launched [OF p live] by (simp add: ts_def)
        from phase_ok_live [OF p live ne]
        have bound: "start + 3 * uint (main_i s) + increments0 ts \<le> c" by (simp add: ts_def)
        consider "k = 0" | "k = 1" | "2 \<le> k" by linarith
        then show ?thesis
        proof cases
          case 1
          from a bound increments0_nonneg [of ts] have "start + 3 \<le> c" by linarith
          moreover have "map verified ts ! 0 = verified t" using k 1 by (simp add: t_def)
          ultimately have "not_both start ((map verified ts)[0 := verified t @ [c]])"
            using len by (intro not_both_update_0)
          with 1 m show ?thesis by simp
        next
          case 2
          have "verified t = [] \<and> c = start + 3 \<longrightarrow> length (map verified ts ! 0) < 3"
          proof
            assume "verified t = [] \<and> c = start + 3"
            with a bound increments0_nonneg [of ts] have "increments0 ts = 0" by linarith
            moreover from two obtain t0 rest where ts: "ts = t0 # rest" by (cases ts) auto
            ultimately have "unat (var_i t0) = 0"
              by (simp add: increments0_def unat_eq_0 uint_0_iff)
            moreover from ok ts have "thread_ok t0" by simp
            ultimately have "length (verified t0) \<le> 1"
              by (cases "at t0") (auto simp: thread_ok_def)
            with ts show "length (map verified ts ! 0) < 3" by simp
          qed
          moreover have "map verified ts ! 1 = verified t" using k 2 by (simp add: t_def)
          ultimately have "not_both start ((map verified ts)[1 := verified t @ [c]])"
            using nb by (intro not_both_update_1)
          with 2 m show ?thesis by simp
        next
          case 3
          with nb m show ?thesis by (simp add: not_both_update_other)
        qed
      qed
    qed
    ultimately show ?thesis unfolding w by (intro invI)
  next
    case incr
    define t' where "t' = t\<lparr>var_i := var_i t + 1, at := Loop_test\<rparr>"
    define h' where "h' = h(Thread_start_number \<mapsto> c + 1)"
    have w: "worker_step k s = s\<lparr>threads := ts[k := t'], heap := h'\<rparr>"
      using ws incr(3) by (simp add: t'_def h'_def)
    have v: "verified t' = verified (ts ! k)" by (simp add: t'_def t_def)
    have "unat (var_i t) < 3" using tok incr(1) by (simp add: thread_ok_def)
    then have "uint (var_i t') = uint (var_i t) + 1" by (simp add: t'_def uint_word32_Suc)
    then have inc: "increments0 (ts[k := t']) - increments0 ts \<le> 1"
      using k by (cases ts; cases k) (simp_all add: increments0_def t_def)
    have "phase_ok start (s\<lparr>threads := ts[k := t'], heap := h'\<rparr>)"
      using p inc incr(2) by (intro phase_ok_worker) (auto simp: ts_def h_def h'_def)
    moreover have "list_all thread_ok (ts[k := t'])"
      using ok tok incr(1) unfolding t'_def by (intro list_all_update thread_ok_increment)
    moreover have "h' Batch_start_number = Some start" using b by (simp add: h'_def)
    moreover have "not_both start (map verified (ts[k := t']))"
      using nb k v by (simp add: map_verified_same)
    ultimately show ?thesis unfolding w by (intro invI)
  qed
qed

lemma first_batch_inv_step:
  "first_batch_inv start s \<Longrightarrow> first_batch_inv start (step spec_scenario t s)"
  by (cases t) (simp_all add: step_def first_batch_inv_main_step first_batch_inv_worker_step)

lemma first_batch_inv_run:
  "first_batch_inv start s \<Longrightarrow> first_batch_inv start (run spec_scenario schedule s)"
  by (induction schedule arbitrary: s) (simp_all add: first_batch_inv_step)

lemma claimed_assignments_excluded:
  assumes "not_both start vs"
  shows "vs \<noteq> claimed_assignments start"
proof
  assume "vs = claimed_assignments start"
  with assms have "departs start [start, start + 1, start + 2]"
    by (simp add: claimed_assignments_def not_both_def begins_as_claimed_def)
  then obtain j where "j < Suc (Suc (Suc 0))"
    and "[start, start + 1, start + 2] ! j \<noteq> start + int j"
    by (auto simp: departs_def)
  then show False by (auto simp: less_Suc_eq)
qed

text \<open>
  Claim C1 (the code differs). In the scenario of the specification worker 0 is
  to verify the three integers from the start number on and worker 1 the next
  three (10, 11, 12 and 13, 14, 15 for the start number 10). Under no schedule do
  they: as long as the first batch has not been left, the lists of the values the
  two workers have verified are never the two claimed assignments. Every worker
  increments the counter it shares with the scheduler, so when worker 1 reads the
  start claimed for it worker 0 has not made an increment yet, and what worker 0
  reads from then on is beyond its own range.
\<close>

theorem claimed_assignments_never_verified:
  assumes "completed (run spec_scenario schedule (initial start)) = 0"
  shows "map verified (threads (run spec_scenario schedule (initial start))) \<noteq>
           claimed_assignments start"
proof -
  have "first_batch_inv start (run spec_scenario schedule (initial start))"
    using first_batch_inv_initial by (rule first_batch_inv_run)
  with assms have "not_both start (map verified (threads (run spec_scenario schedule (initial start))))"
    by (simp add: first_batch_inv_def)
  then show ?thesis by (rule claimed_assignments_excluded)
qed

theorem claimed_assignments_never_verified_witness:
  "completed (run spec_scenario scenario_workers_run_at_launch (initial 10)) = 0 \<and>
   main_at (run spec_scenario scenario_workers_run_at_launch (initial 10)) = Next_batch \<and>
   \<not> faulted (run spec_scenario scenario_workers_run_at_launch (initial 10)) \<and>
   announced (run spec_scenario scenario_workers_run_at_launch (initial 10)) = [(10, 16)] \<and>
   map verified (threads (run spec_scenario scenario_workers_run_at_launch (initial 10))) =
     [[10, 11, 12], [16, 17, 18]] \<and>
   map verified (threads (run spec_scenario scenario_workers_run_at_launch (initial 10))) \<noteq>
     claimed_assignments 10"
proof -
  have r: "completed (run spec_scenario scenario_workers_run_at_launch (initial 10)) = 0 \<and>
      main_at (run spec_scenario scenario_workers_run_at_launch (initial 10)) = Next_batch \<and>
      \<not> faulted (run spec_scenario scenario_workers_run_at_launch (initial 10)) \<and>
      announced (run spec_scenario scenario_workers_run_at_launch (initial 10)) = [(10, 16)] \<and>
      map verified (threads (run spec_scenario scenario_workers_run_at_launch (initial 10))) =
        [[10, 11, 12], [16, 17, 18]]"
    by (simp add: spec_scenario_def scenario_workers_run_at_launch_def sched_defs collatz_loop.simps)
  then have "completed (run spec_scenario scenario_workers_run_at_launch (initial 10)) = 0" by simp
  from claimed_assignments_never_verified [OF this] r show ?thesis by simp
qed

text \<open>With a thread count of \<open>2^32\<close> or more the test of line 126 never fails.\<close>

lemma launch_loop_never_exits:
  assumes "4294967296 \<le> unat (thread_count cfg)" and "main_at s = Launch_test"
  shows "main_at (main_step cfg s) = Launch"
  using assms unsigned_counter_below [of "thread_count cfg" "main_i s"]
  by (simp add: main_step_def)

end
